theory Spec2Isabelle
  imports Complex_Main
begin

section \<open>JavaScript numbers\<close>

text \<open>
  The layout code computes with JavaScript numbers. Division by zero does not raise: it
  yields \<open>Infinity\<close> or \<open>NaN\<close>, and \<open>NaN\<close> is absorbed by \<open>Math.min\<close>, \<open>Math.max\<close>
  and every arithmetic operator. The type below keeps these special values; finite
  values are real numbers (rounding to doubles and the sign of zero are left out).
\<close>

datatype jsnum = NaN | NInf | Fin real | PInf

definition num :: "nat \<Rightarrow> jsnum" where
  "num n = Fin (real n)"

fun jneg :: "jsnum \<Rightarrow> jsnum" where
  "jneg NaN = NaN"
| "jneg NInf = PInf"
| "jneg PInf = NInf"
| "jneg (Fin a) = Fin (- a)"

fun jadd :: "jsnum \<Rightarrow> jsnum \<Rightarrow> jsnum" where
  "jadd NaN _ = NaN"
| "jadd _ NaN = NaN"
| "jadd (Fin a) (Fin b) = Fin (a + b)"
| "jadd PInf NInf = NaN"
| "jadd NInf PInf = NaN"
| "jadd PInf _ = PInf"
| "jadd _ PInf = PInf"
| "jadd NInf _ = NInf"
| "jadd _ NInf = NInf"

definition jsub :: "jsnum \<Rightarrow> jsnum \<Rightarrow> jsnum" where
  "jsub a b = jadd a (jneg b)"

text \<open>The sign of a number that is not \<open>NaN\<close>: -1, 0 or 1.\<close>

fun jsign :: "jsnum \<Rightarrow> int" where
  "jsign NaN = 0"
| "jsign NInf = - 1"
| "jsign PInf = 1"
| "jsign (Fin a) = (if a < 0 then - 1 else if a = 0 then 0 else 1)"

definition jinf :: "int \<Rightarrow> jsnum" where
  "jinf s = (if s < 0 then NInf else if s = 0 then NaN else PInf)"

fun jmul :: "jsnum \<Rightarrow> jsnum \<Rightarrow> jsnum" where
  "jmul NaN _ = NaN"
| "jmul _ NaN = NaN"
| "jmul (Fin a) (Fin b) = Fin (a * b)"
| "jmul a b = jinf (jsign a * jsign b)"

fun jdiv :: "jsnum \<Rightarrow> jsnum \<Rightarrow> jsnum" where
  "jdiv NaN _ = NaN"
| "jdiv _ NaN = NaN"
| "jdiv (Fin a) (Fin b) = (if b = 0 then jinf (jsign (Fin a)) else Fin (a / b))"
| "jdiv (Fin a) _ = Fin 0"
| "jdiv a (Fin b) = (if b < 0 then jneg a else a)"
| "jdiv _ _ = NaN"

fun jlt :: "jsnum \<Rightarrow> jsnum \<Rightarrow> bool" where
  "jlt NaN _ = False"
| "jlt _ NaN = False"
| "jlt (Fin a) (Fin b) = (a < b)"
| "jlt NInf NInf = False"
| "jlt NInf _ = True"
| "jlt _ NInf = False"
| "jlt PInf _ = False"
| "jlt _ PInf = True"

definition jeq :: "jsnum \<Rightarrow> jsnum \<Rightarrow> bool" where
  "jeq a b = (a \<noteq> NaN \<and> a = b)"

definition jge :: "jsnum \<Rightarrow> jsnum \<Rightarrow> bool" where
  "jge a b = (jlt b a \<or> jeq a b)"

definition jmin :: "jsnum \<Rightarrow> jsnum \<Rightarrow> jsnum" where
  "jmin a b = (if a = NaN \<or> b = NaN then NaN else if jlt b a then b else a)"

definition jmax :: "jsnum \<Rightarrow> jsnum \<Rightarrow> jsnum" where
  "jmax a b = (if a = NaN \<or> b = NaN then NaN else if jlt a b then b else a)"

fun jabs :: "jsnum \<Rightarrow> jsnum" where
  "jabs NaN = NaN"
| "jabs NInf = PInf"
| "jabs PInf = PInf"
| "jabs (Fin a) = Fin \<bar>a\<bar>"

fun jsin :: "jsnum \<Rightarrow> jsnum" where
  "jsin (Fin a) = Fin (sin a)"
| "jsin _ = NaN"

fun jcos :: "jsnum \<Rightarrow> jsnum" where
  "jcos (Fin a) = Fin (cos a)"
| "jcos _ = NaN"

text \<open>A property that was never assigned reads as \<open>undefined\<close>, which is \<open>NaN\<close> in arithmetic.\<close>

definition toNum :: "jsnum option \<Rightarrow> jsnum" where
  "toNum v = (case v of None \<Rightarrow> NaN | Some a \<Rightarrow> a)"

section \<open>Errors and nodes\<close>

text \<open>
  The statements thrown by the code: \<open>FormatError\<close> is \<open>throw "Unknown tree file format"\<close>,
  \<open>StructuralError\<close> is \<open>throw "Malformed statistics content"\<close>, \<open>UnsupportedSetting\<close> is
  \<open>throw "Unsupported setting"\<close>, \<open>TypeError\<close> is the engine's error for reading a
  property of \<open>undefined\<close>. \<open>ChildRejected\<close> is raised by the node model only.
\<close>

datatype error = FormatError | StructuralError | TypeError | UnsupportedSetting | ChildRejected

datatype kind = InternalNode | LeafNode

text \<open>
  The fields of a node object. \<open>rawFields\<close> keeps the record's raw text fields, which
  stand for the data the renderer passes through (impurity, classes, split metadata).
  The layout fields (\<open>x1\<close>, \<open>y1\<close> and \<open>length_px\<close> are the source's \<open>x\<close>, \<open>y\<close>
  and \<open>length\<close>) are undefined (\<open>None\<close>) until a layout pass assigns them;
  \<open>index\<close> and \<open>parentIndex\<close> are the \<open>index\<close> and \<open>parent\<close> that \<open>app/draw.mjs\<close> assigns.
\<close>

record node =
  kind :: kind
  depth :: nat
  samples :: nat
  leafId :: nat
  rawFields :: "string list"
  selectedPathElement :: bool
  x1 :: "jsnum option"
  y1 :: "jsnum option"
  x2 :: "jsnum option"
  y2 :: "jsnum option"
  angle :: "jsnum option"
  length_px :: "jsnum option"
  index :: "nat option"
  parentIndex :: "nat option"

datatype tree = Node node "tree list"

fun root :: "tree \<Rightarrow> node" where
  "root (Node n cs) = n"

fun children :: "tree \<Rightarrow> tree list" where
  "children (Node n cs) = cs"

text \<open>\<open>xs[i]\<close> of JavaScript: \<open>undefined\<close> out of range.\<close>

definition elemAt :: "'a list \<Rightarrow> nat \<Rightarrow> 'a option" where
  "elemAt xs i = (if i < List.length xs then Some (xs ! i) else None)"

section \<open>Branching strategies (app/draw.mjs)\<close>

definition strategySIMPLE :: "tree \<Rightarrow> error + (tree option \<times> tree option)" where
  "strategySIMPLE t = Inr (elemAt (children t) 0, elemAt (children t) 1)"

definition firstBiggerThanSecond :: "tree \<Rightarrow> tree \<Rightarrow> bool" where
  "firstBiggerThanSecond t c0 =
     jge (jdiv (num (samples (root c0))) (num (samples (root t)))) (Fin (1 / 2))"

definition leftBound :: "tree \<Rightarrow> bool" where
  "leftBound t = jlt (toNum (angle (root t))) (Fin 0)"

definition strategyUP :: "tree \<Rightarrow> error + (tree option \<times> tree option)" where
  "strategyUP t =
     (case elemAt (children t) 0 of
        None \<Rightarrow> Inl TypeError
      | Some c0 \<Rightarrow>
          if firstBiggerThanSecond t c0 \<and> leftBound t then
            Inr (elemAt (children t) 1, elemAt (children t) 0)
          else if \<not> firstBiggerThanSecond t c0 \<and> leftBound t then
            Inr (elemAt (children t) 0, elemAt (children t) 1)
          else if firstBiggerThanSecond t c0 \<and> \<not> leftBound t then
            Inr (elemAt (children t) 0, elemAt (children t) 1)
          else
            Inr (elemAt (children t) 1, elemAt (children t) 0))"

text \<open>
  \<open>branchStrategy\<close> returns one of two closures; \<open>strategy\<close> names them and
  \<open>applyStrategy\<close> calls them.
\<close>

datatype strategy = SIMPLE | UP

definition branchStrategy :: "string \<Rightarrow> error + strategy" where
  "branchStrategy type =
     (if type = ''SIMPLE'' then Inr SIMPLE
      else if type = ''UP'' then Inr UP
      else Inl UnsupportedSetting)"

fun applyStrategy :: "strategy \<Rightarrow> tree \<Rightarrow> error + (tree option \<times> tree option)" where
  "applyStrategy SIMPLE t = strategySIMPLE t"
| "applyStrategy UP t = strategyUP t"

text \<open>A fresh node object, as the parser creates it: no layout field is assigned.\<close>

definition mkNode :: "kind \<Rightarrow> nat \<Rightarrow> nat \<Rightarrow> nat \<Rightarrow> string list \<Rightarrow> node" where
  "mkNode k d s l fs =
     \<lparr>kind = k, depth = d, samples = s, leafId = l, rawFields = fs,
      selectedPathElement = False, x1 = None, y1 = None, x2 = None, y2 = None,
      angle = None, length_px = None, index = None, parentIndex = None\<rparr>"

section \<open>Layout (src/components/TreeView.js)\<close>

text \<open>
  The parameters of \<open>generateTreeElements\<close>. \<open>totalSamples\<close> and \<open>pathLeafID\<close> are
  not read by the function and are left out.
\<close>

record config =
  maxDepth :: jsnum
  width :: jsnum
  height :: jsnum
  trunkLength :: jsnum
  maxShorteningFactor :: jsnum
  minBranchLength :: jsnum

text \<open>
  The records pushed to \<open>leafs\<close> and \<open>bunches\<close>. \<open>leaf_fields\<close> stands for the
  classification detail copied from the node (impurity, noClasses, classes, bestClass).
\<close>

record leaf =
  leaf_x :: "jsnum option"
  leaf_y :: "jsnum option"
  leaf_samples :: nat
  leaf_leafId :: nat
  leaf_depth :: nat
  leaf_fields :: "string list"
  leaf_selectedPathElement :: bool

record bunch =
  bunch_x :: "jsnum option"
  bunch_y :: "jsnum option"
  baseNode :: tree
  bunch_samples :: nat

record out =
  branches :: "node list"
  leafs :: "leaf list"
  bunches :: "bunch list"

definition addBranchInformation ::
  "tree \<Rightarrow> jsnum option \<Rightarrow> jsnum option \<Rightarrow> jsnum \<Rightarrow> jsnum \<Rightarrow> nat \<Rightarrow> tree" where
  "addBranchInformation t px py a l d =
     Node ((root t)\<lparr>x1 := px, y1 := py,
             x2 := Some (jadd (toNum px) (jmul l (jsin a))),
             y2 := Some (jsub (toNum py) (jmul l (jcos a))),
             angle := Some a, length_px := Some l, depth := d\<rparr>)
          (children t)"

definition leafOf :: "node \<Rightarrow> leaf" where
  "leafOf n =
     \<lparr>leaf_x = x2 n, leaf_y = y2 n, leaf_samples = samples n, leaf_leafId = leafId n,
      leaf_depth = depth n, leaf_fields = rawFields n,
      leaf_selectedPathElement = selectedPathElement n\<rparr>"

definition bunchOf :: "tree \<Rightarrow> bunch" where
  "bunchOf t =
     \<lparr>bunch_x = x2 (root t), bunch_y = y2 (root t), baseNode = t,
      bunch_samples = samples (root t)\<rparr>"

text \<open>The length and the angle that \<open>branch\<close> gives to a child \<open>c\<close> of the node \<open>n\<close>.\<close>

definition childLength :: "config \<Rightarrow> node \<Rightarrow> tree \<Rightarrow> jsnum" where
  "childLength cfg n c =
     jmax (jmul (jmin (jdiv (num (samples (root c))) (num (samples n))) (maxShorteningFactor cfg))
                (toNum (length_px n)))
          (minBranchLength cfg)"

definition childSkew :: "node \<Rightarrow> tree \<Rightarrow> jsnum" where
  "childSkew n c = jabs (jsub (jdiv (num (samples (root c))) (num (samples n))) (Fin 1))"

text \<open>
  The recursive function \<open>branch\<close>. The lists it pushes to are threaded through as
  \<open>out\<close>; the tree it returns is the node after the pass, with the layout fields that
  \<open>addBranchInformation\<close> assigned in place. Reading \<open>samples\<close> of a child that does
  not exist is a TypeError.
\<close>

lemma size_addBranchInformation [simp]:
  "size (addBranchInformation t px py a l d) = size t"
  by (cases t) (simp add: addBranchInformation_def)

function branch :: "config \<Rightarrow> out \<Rightarrow> tree \<Rightarrow> error + (out \<times> tree)" where
  "branch cfg acc (Node n cs) =
     (let acc1 = acc\<lparr>branches := branches acc @ [n]\<rparr> in
      if jeq (num (depth n)) (jsub (maxDepth cfg) (Fin 1)) then
        Inr (acc1\<lparr>bunches := bunches acc1 @ [bunchOf (Node n cs)]\<rparr>, Node n cs)
      else if kind n = LeafNode then
        Inr (acc1\<lparr>leafs := leafs acc1 @ [leafOf n]\<rparr>, Node n cs)
      else
        (case cs of
           leftChild # rightChild # rest \<Rightarrow>
             (let length1 = childLength cfg n leftChild;
                  length2 = childLength cfg n rightChild;
                  angle1 = jsub (toNum (angle n)) (childSkew n leftChild);
                  angle2 = jadd (toNum (angle n)) (childSkew n rightChild)
              in case branch cfg acc1
                        (addBranchInformation leftChild (x2 n) (y2 n) angle1 length1 (depth n + 1)) of
                   Inl e \<Rightarrow> Inl e
                 | Inr (acc2, l') \<Rightarrow>
                     (case branch cfg acc2
                        (addBranchInformation rightChild (x2 n) (y2 n) angle2 length2 (depth n + 1)) of
                        Inl e \<Rightarrow> Inl e
                      | Inr (acc3, r') \<Rightarrow> Inr (acc3, Node n (l' # r' # rest))))
         | _ \<Rightarrow> Inl TypeError))"
  by pat_completeness auto
termination
  by (relation "measure (\<lambda>(cfg, acc, t). size t)") auto

text \<open>\<open>Array.prototype.sort\<close> with \<open>sortBySamples\<close>: descending by samples, stable.\<close>

definition sortBySamples :: "('a \<Rightarrow> nat) \<Rightarrow> 'a list \<Rightarrow> 'a list" where
  "sortBySamples f xs = sort_key (\<lambda>r. - int (f r)) xs"

definition generateTreeElements :: "config \<Rightarrow> tree \<Rightarrow> error + (out \<times> tree)" where
  "generateTreeElements cfg t =
     (case branch cfg \<lparr>branches = [], leafs = [], bunches = []\<rparr>
             (addBranchInformation t (Some (jdiv (width cfg) (Fin 2))) (Some (height cfg))
                (Fin 0) (trunkLength cfg) 0) of
        Inl e \<Rightarrow> Inl e
      | Inr (acc, t') \<Rightarrow>
          Inr (acc\<lparr>leafs := sortBySamples leaf_samples (leafs acc),
                   bunches := sortBySamples bunch_samples (bunches acc)\<rparr>, t'))"

section \<open>Layout (app/draw.mjs)\<close>

record drawLeaf =
  drawLeaf_x :: "jsnum option"
  drawLeaf_y :: "jsnum option"
  drawLeaf_fields :: "string list"
  drawLeaf_samples :: nat

record drawOut =
  drawBranches :: "node list"
  drawLeafs :: "drawLeaf list"

definition drawAddBranchInformation ::
  "tree \<Rightarrow> nat \<Rightarrow> jsnum option \<Rightarrow> jsnum option \<Rightarrow> jsnum \<Rightarrow> jsnum \<Rightarrow> nat \<Rightarrow> nat option \<Rightarrow> tree" where
  "drawAddBranchInformation t i px py a l d p =
     Node ((root t)\<lparr>index := Some i, x1 := px, y1 := py,
             x2 := Some (jadd (toNum px) (jmul l (jsin a))),
             y2 := Some (jsub (toNum py) (jmul l (jcos a))),
             angle := Some a, length_px := Some l, depth := d, parentIndex := p\<rparr>)
          (children t)"

definition drawLeafOf :: "node \<Rightarrow> drawLeaf" where
  "drawLeafOf n =
     \<lparr>drawLeaf_x = x2 n, drawLeaf_y = y2 n, drawLeaf_fields = rawFields n,
      drawLeaf_samples = samples n\<rparr>"

definition drawChildLength :: "jsnum \<Rightarrow> tree \<Rightarrow> jsnum" where
  "drawChildLength totalSamples c =
     jadd (Fin 4) (jmul (jdiv (num (samples (root c))) totalSamples) (Fin 100))"

lemma size_drawAddBranchInformation [simp]:
  "size (drawAddBranchInformation t i px py a l d p) = size t"
  by (cases t) (simp add: drawAddBranchInformation_def)

lemma size_child: "c \<in> set cs \<Longrightarrow> size c < Suc (size_list size cs)"
  by (induction cs) auto

lemma applyStrategy_children:
  "applyStrategy s t = Inr (l, r) \<Longrightarrow>
     (\<forall>c. l = Some c \<longrightarrow> c \<in> set (children t)) \<and> (\<forall>c. r = Some c \<longrightarrow> c \<in> set (children t))"
  by (cases s)
     (auto simp: strategySIMPLE_def strategyUP_def elemAt_def split: option.splits if_splits)

function drawBranch ::
  "strategy \<Rightarrow> jsnum \<Rightarrow> jsnum \<Rightarrow> drawOut \<Rightarrow> tree \<Rightarrow> error + drawOut" where
  "drawBranch s totalSamples maxD acc (Node n cs) =
     (let acc1 = acc\<lparr>drawBranches := drawBranches acc @ [n]\<rparr> in
      if List.length cs = 0 \<or> jeq (num (depth n)) (jsub maxD (Fin 1)) then
        Inr (acc1\<lparr>drawLeafs := drawLeafs acc1 @ [drawLeafOf n]\<rparr>)
      else
        (case applyStrategy s (Node n cs) of
           Inl e \<Rightarrow> Inl e
         | Inr (Some leftChild, Some rightChild) \<Rightarrow>
             (let length1 = drawChildLength totalSamples leftChild;
                  length2 = drawChildLength totalSamples rightChild;
                  angle1 = jsub (toNum (angle n)) (childSkew n leftChild);
                  angle2 = jadd (toNum (angle n)) (childSkew n rightChild)
              in case drawBranch s totalSamples maxD acc1
                        (drawAddBranchInformation leftChild (List.length (drawBranches acc1))
                           (x2 n) (y2 n) angle1 length1 (depth n + 1) (index n)) of
                   Inl e \<Rightarrow> Inl e
                 | Inr acc2 \<Rightarrow>
                     drawBranch s totalSamples maxD acc2
                       (drawAddBranchInformation rightChild (List.length (drawBranches acc2))
                          (x2 n) (y2 n) angle2 length2 (depth n + 1) (index n)))
         | Inr _ \<Rightarrow> Inl TypeError))"
  by pat_completeness auto
termination
  by (relation "measure (\<lambda>(s, ts, md, acc, t). size t)")
     (auto dest!: applyStrategy_children intro: size_child)

text \<open>
  \<open>generateTreeElements\<close> of \<open>app/draw.mjs\<close>: the root is placed at (400, 800) with
  length 100, index 0 and no parent.
\<close>

definition drawGenerateTreeElements ::
  "tree \<Rightarrow> jsnum \<Rightarrow> jsnum \<Rightarrow> strategy \<Rightarrow> error + drawOut" where
  "drawGenerateTreeElements t totalSamples maxD s =
     drawBranch s totalSamples maxD \<lparr>drawBranches = [], drawLeafs = []\<rparr>
       (drawAddBranchInformation t 0 (Some (Fin 400)) (Some (Fin 800)) (Fin 0) (Fin 100) 0 None)"

section \<open>Branching strategy UP\<close>

text \<open>
  C2 (as amended). Under the UP strategy, for a node with two children, the children keep
  their parse order (left = children[0], right = children[1]) exactly when firstBigger
  and leftBound differ, and are swapped (right = children[0]) when both hold or neither
  holds.
\<close>

theorem strategyUP_order:
  "strategyUP (Node n (c0 # c1 # cs)) =
     Inr (if firstBiggerThanSecond (Node n (c0 # c1 # cs)) c0 = leftBound (Node n (c0 # c1 # cs))
          then (Some c1, Some c0) else (Some c0, Some c1))"
  by (simp add: strategyUP_def elemAt_def)

text \<open>
  The rule of C2 as stated fails: with children[0] holding 60 of 100 samples and a
  negative angle, firstBigger and leftBound both hold, and the right child is children[0].
\<close>

theorem strategyUP_counterexample:
  "firstBiggerThanSecond
     (Node (mkNode InternalNode 0 100 0 [] \<lparr>angle := Some (Fin (- 1))\<rparr>)
        [Node (mkNode LeafNode 1 60 0 []) [], Node (mkNode LeafNode 1 40 1 []) []])
     (Node (mkNode LeafNode 1 60 0 []) [])
   \<and> leftBound
     (Node (mkNode InternalNode 0 100 0 [] \<lparr>angle := Some (Fin (- 1))\<rparr>)
        [Node (mkNode LeafNode 1 60 0 []) [], Node (mkNode LeafNode 1 40 1 []) []])
   \<and> strategyUP
     (Node (mkNode InternalNode 0 100 0 [] \<lparr>angle := Some (Fin (- 1))\<rparr>)
        [Node (mkNode LeafNode 1 60 0 []) [], Node (mkNode LeafNode 1 40 1 []) []])
     = Inr (Some (Node (mkNode LeafNode 1 40 1 []) []), Some (Node (mkNode LeafNode 1 60 0 []) []))
   \<and> Node (mkNode LeafNode 1 60 0 []) [] \<noteq> Node (mkNode LeafNode 1 40 1 []) []"
  by (simp add: strategyUP_def firstBiggerThanSecond_def leftBound_def elemAt_def mkNode_def
      num_def jge_def jeq_def toNum_def)

section \<open>Statistics parser (parseStatisticsContent)\<close>

subsection \<open>Strings\<close>

text \<open>
  \<open>String.prototype.trim\<close> and \<open>split\<close> on texts of code units below 256: \<open>trim\<close>
  removes white space and line terminators from both ends, which in this range are tab,
  line feed, vertical tab, form feed, carriage return, space and the no-break space
  U+00A0; \<open>split\<close> cuts at every occurrence of the separator, from left to right.
\<close>

definition isSpace :: "char \<Rightarrow> bool" where
  "isSpace c = (c \<in> {CHR 0x09, CHR 0x0A, CHR 0x0B, CHR 0x0C, CHR 0x0D, CHR 0x20, CHR 0xA0})"

definition trim :: "string \<Rightarrow> string" where
  "trim s = rev (dropWhile isSpace (rev (dropWhile isSpace s)))"

function splitFrom :: "string \<Rightarrow> string \<Rightarrow> string \<Rightarrow> string list" where
  "splitFrom sep cur [] = [cur]"
| "splitFrom sep cur (c # cs) =
     (if sep \<noteq> [] \<and> take (List.length sep) (c # cs) = sep
      then cur # splitFrom sep [] (drop (List.length sep) (c # cs))
      else splitFrom sep (cur @ [c]) cs)"
  by pat_completeness auto
termination
  by (relation "measure (\<lambda>(sep, cur, s). List.length s)") auto

definition split :: "string \<Rightarrow> string \<Rightarrow> string list" where
  "split sep s = (if sep = [] then map (\<lambda>c. [c]) s else splitFrom sep [] s)"

subsection \<open>Node objects and the stack loop\<close>

text \<open>
  The parser links node objects by reference: \<open>latest.add(node)\<close> changes an object
  that is also on the stack and in the tree. The objects live in an arena, a list in
  which the object of the i-th record has the address i; \<open>children_refs\<close> and
  \<open>parent_ref\<close> hold addresses.
\<close>

record cell =
  val :: node
  children_refs :: "nat list"
  parent_ref :: "nat option"

definition fresh :: "node \<Rightarrow> cell" where
  "fresh n = \<lparr>val = n, children_refs = [], parent_ref = None\<rparr>"

text \<open>
  Modelled from the spec: \<open>add\<close> of the node classes in \<open>src/logic/TreeNodes\<close>, which is
  not among the sources. The spec has it attach the node as the next child, at most
  two, of an InternalNode and set the node's parent; a LeafNode never gains children.
  A refused child is the error \<open>ChildRejected\<close>.
\<close>

definition add :: "cell list \<Rightarrow> nat \<Rightarrow> nat \<Rightarrow> error + cell list" where
  "add h p c =
     (if kind (val (h ! p)) = LeafNode \<or> 2 \<le> List.length (children_refs (h ! p))
      then Inl ChildRejected
      else Inr ((h[p := (h ! p)\<lparr>children_refs := children_refs (h ! p) @ [c]\<rparr>])
                  [c := (h ! c)\<lparr>parent_ref := Some p\<rparr>]))"

text \<open>\<open>stack[stack.length - 1]\<close>: \<open>undefined\<close> on the empty stack.\<close>

definition top :: "nat list \<Rightarrow> nat option" where
  "top stack = (if stack = [] then None else Some (last stack))"

text \<open>The stack after the depth comparison of the loop body, for the node at \<open>i\<close>.\<close>

definition adjust :: "cell list \<Rightarrow> nat list \<Rightarrow> nat \<Rightarrow> error + nat list" where
  "adjust h stack i =
     (case top stack of
        None \<Rightarrow> Inl TypeError
      | Some latest \<Rightarrow>
          if depth (val (h ! i)) = depth (val (h ! latest)) + 1 then Inr stack
          else if depth (val (h ! i)) = depth (val (h ! latest)) then Inr (butlast stack)
          else if depth (val (h ! i)) < depth (val (h ! latest))
            then Inr (take (depth (val (h ! i))) stack)
          else Inl StructuralError)"

text \<open>One pass of the loop body: adjust the stack, add the node to the new top, push it.\<close>

definition step :: "cell list \<times> nat list \<Rightarrow> nat \<Rightarrow> error + cell list \<times> nat list" where
  "step st i =
     (case adjust (fst st) (snd st) i of
        Inl e \<Rightarrow> Inl e
      | Inr stack \<Rightarrow>
          (case top stack of
             None \<Rightarrow> Inl TypeError
           | Some latest \<Rightarrow>
               (case add (fst st) latest i of
                  Inl e \<Rightarrow> Inl e
                | Inr h \<Rightarrow> Inr (h, stack @ [i]))))"

fun iterate :: "cell list \<times> nat list \<Rightarrow> nat list \<Rightarrow> error + cell list \<times> nat list" where
  "iterate st [] = Inr st"
| "iterate st (i # is) = (case step st i of Inl e \<Rightarrow> Inl e | Inr st' \<Rightarrow> iterate st' is)"

text \<open>
  The loop over the nodes. The first node is the base node and starts the stack. With
  no node at all the base node is \<open>undefined\<close>, the loop does not run, and the result
  is the empty arena.
\<close>

definition buildTree :: "node list \<Rightarrow> error + cell list" where
  "buildTree ns =
     (if ns = [] then Inr []
      else map_sum id fst (iterate (map fresh ns, [0]) [1..<List.length ns]))"

subsection \<open>Records\<close>

text \<open>
  The constructors of InternalNode and LeafNode are in \<open>src/logic/TreeNodes\<close>, which is
  not among the sources: \<open>ctor\<close> stands for what they read from the fields of a
  record. The class decides the kind of the node.
\<close>

definition records :: "string \<Rightarrow> string list" where
  "records text = drop 2 (split [CHR 0x0A] (trim text))"

definition parseLine :: "(kind \<Rightarrow> string list \<Rightarrow> node) \<Rightarrow> string \<Rightarrow> error + node" where
  "parseLine ctor line =
     (let fields = split '';'' line in
      if List.length fields = 11 then Inr ((ctor InternalNode fields)\<lparr>kind := InternalNode\<rparr>)
      else if List.length fields = 6 then Inr ((ctor LeafNode fields)\<lparr>kind := LeafNode\<rparr>)
      else Inl FormatError)"

fun parseLines :: "(kind \<Rightarrow> string list \<Rightarrow> node) \<Rightarrow> string list \<Rightarrow> error + node list" where
  "parseLines ctor [] = Inr []"
| "parseLines ctor (l # ls) =
     (case parseLine ctor l of
        Inl e \<Rightarrow> Inl e
      | Inr n \<Rightarrow> (case parseLines ctor ls of Inl e \<Rightarrow> Inl e | Inr ns \<Rightarrow> Inr (n # ns)))"

definition parseStatisticsContent ::
  "(kind \<Rightarrow> string list \<Rightarrow> node) \<Rightarrow> string \<Rightarrow> error + cell list" where
  "parseStatisticsContent ctor text =
     (case parseLines ctor (records text) of
        Inl e \<Rightarrow> Inl e
      | Inr ns \<Rightarrow> buildTree ns)"

text \<open>
  Modelled from the spec: a reader for the examples. The spec puts the depth in the
  first field and, in its end-to-end scenario, the samples in the second; both are
  decimal numbers. The leaf id is read from the last field.
\<close>

definition decimal :: "string \<Rightarrow> nat" where
  "decimal s = foldl (\<lambda>a c. 10 * a + (of_char c - 48)) 0 s"

definition readFields :: "kind \<Rightarrow> string list \<Rightarrow> node" where
  "readFields k fs = mkNode k (decimal (fs ! 0)) (decimal (fs ! 1)) (decimal (last fs)) fs"

section \<open>Properties of the layout\<close>

text \<open>
  \<open>expanded\<close> says that \<open>branch\<close> recurses into the children of a node: the node is
  neither at the cut-off depth nor a leaf. \<open>leftOf\<close> and \<open>rightOf\<close> are the children as
  \<open>branch\<close> passes them on.
\<close>

definition expanded :: "config \<Rightarrow> node \<Rightarrow> bool" where
  "expanded cfg n = (\<not> jeq (num (depth n)) (jsub (maxDepth cfg) (Fin 1)) \<and> kind n \<noteq> LeafNode)"

definition leftOf :: "config \<Rightarrow> node \<Rightarrow> tree \<Rightarrow> tree" where
  "leftOf cfg n c = addBranchInformation c (x2 n) (y2 n)
     (jsub (toNum (angle n)) (childSkew n c)) (childLength cfg n c) (depth n + 1)"

definition rightOf :: "config \<Rightarrow> node \<Rightarrow> tree \<Rightarrow> tree" where
  "rightOf cfg n c = addBranchInformation c (x2 n) (y2 n)
     (jadd (toNum (angle n)) (childSkew n c)) (childLength cfg n c) (depth n + 1)"

text \<open>
  \<open>bare\<close> is a tree without the fields that the layout assigns (position, angle, length
  and depth): the layout returns as \<open>t'\<close> the tree it was given, with these fields set,
  when \<open>bare t' = bare t\<close>. \<open>placed cfg k t'\<close> says that the root of \<open>t'\<close> has the depth
  \<open>k\<close> and that, at every node that \<open>branch\<close> expands, both children have the length
  \<open>childLength\<close> and are placed one level below. \<open>walkE\<close> lists the nodes of the
  pre-order walk that descends exactly at the expanded nodes; \<open>walkL d k t\<close> is the walk
  on a tree that was not laid out, with the level of each node counted from \<open>k\<close>, which
  stops at leaves and at the level \<open>d - 1\<close>.
\<close>

definition bareNode :: "node \<Rightarrow> node" where
  "bareNode n = n\<lparr>x1 := None, y1 := None, x2 := None, y2 := None, angle := None,
                 length_px := None, depth := 0\<rparr>"

fun bare :: "tree \<Rightarrow> tree" where
  "bare (Node n cs) = Node (bareNode n) (map bare cs)"

fun placed :: "config \<Rightarrow> nat \<Rightarrow> tree \<Rightarrow> bool" where
  "placed cfg k (Node n cs) =
     (depth n = k \<and>
      (\<not> expanded cfg n \<or>
       (case cs of
          l # r # rest \<Rightarrow>
            length_px (root l) = Some (childLength cfg n l) \<and>
            length_px (root r) = Some (childLength cfg n r) \<and>
            placed cfg (k + 1) l \<and> placed cfg (k + 1) r
        | _ \<Rightarrow> False)))"

fun walkE :: "config \<Rightarrow> tree \<Rightarrow> tree list" where
  "walkE cfg (Node n cs) =
     Node n cs #
     (if expanded cfg n then (case cs of l # r # rest \<Rightarrow> walkE cfg l @ walkE cfg r | _ \<Rightarrow> [])
      else [])"


lemma branch_stop:
  "\<not> expanded cfg n \<Longrightarrow> \<exists>acc'. branch cfg acc (Node n cs) = Inr (acc', Node n cs)"
  by (auto simp: expanded_def Let_def)

lemma branch_short:
  "expanded cfg n \<Longrightarrow> List.length cs < 2 \<Longrightarrow> branch cfg acc (Node n cs) = Inl TypeError"
  by (cases cs; cases "tl cs") (auto simp: expanded_def Let_def)

lemma branch_expand:
  "expanded cfg n \<Longrightarrow>
   branch cfg acc (Node n (l # r # rest)) =
     (case branch cfg (acc\<lparr>branches := branches acc @ [n]\<rparr>) (leftOf cfg n l) of
        Inl e \<Rightarrow> Inl e
      | Inr (acc2, l') \<Rightarrow>
          (case branch cfg acc2 (rightOf cfg n r) of
             Inl e \<Rightarrow> Inl e
           | Inr (acc3, r') \<Rightarrow> Inr (acc3, Node n (l' # r' # rest))))"
  by (simp add: expanded_def Let_def leftOf_def rightOf_def cong: sum.case_cong)

lemma size_leftOf [simp]: "size (leftOf cfg n c) = size c"
  by (simp add: leftOf_def)
lemma size_rightOf [simp]: "size (rightOf cfg n c) = size c"
  by (simp add: rightOf_def)

lemma branch_root: "branch cfg acc t = Inr (acc', t') \<Longrightarrow> root t' = root t"
  by (cases t) (auto simp: Let_def split: if_splits list.splits sum.splits)

lemma bare_addBI [simp]: "bare (addBranchInformation c px py a l d) = bare c"
  by (cases c) (simp add: addBranchInformation_def bareNode_def)

lemma bare_leftOf [simp]: "bare (leftOf cfg n c) = bare c"
  by (simp add: leftOf_def)

lemma bare_rightOf [simp]: "bare (rightOf cfg n c) = bare c"
  by (simp add: rightOf_def)

lemma branch_placed:
  "branch cfg acc t = Inr (acc', t') \<Longrightarrow>
     bare t' = bare t \<and> placed cfg (depth (root t)) t' \<and>
     branches acc' = branches acc @ map root (walkE cfg t')"
proof (induction "size t" arbitrary: t acc acc' t' rule: less_induct)
  case less
  obtain n cs where t: "t = Node n cs" by (cases t)
  show ?case
  proof (cases "expanded cfg n")
    case False
    with less.prems show ?thesis
      by (auto simp: t expanded_def Let_def split: if_splits)
  next
    case True
    have "\<not> List.length cs < 2"
      using less.prems branch_short[OF True, of cs acc] by (auto simp: t)
    then obtain l r rest where cs: "cs = l # r # rest"
      by (cases cs; cases "tl cs") auto
    from less.prems obtain acc2 l' r'
      where L: "branch cfg (acc\<lparr>branches := branches acc @ [n]\<rparr>) (leftOf cfg n l) = Inr (acc2, l')"
        and R: "branch cfg acc2 (rightOf cfg n r) = Inr (acc', r')"
        and t': "t' = Node n (l' # r' # rest)"
      unfolding t cs branch_expand[OF True] by (auto split: sum.splits)
    have dl: "depth (root (leftOf cfg n l)) = depth n + 1"
      "depth (root (rightOf cfg n r)) = depth n + 1"
      by (simp_all add: leftOf_def rightOf_def addBranchInformation_def)
    have IHl: "bare l' = bare l" "placed cfg (depth n + 1) l'"
      "branches acc2 = branches acc @ n # map root (walkE cfg l')"
      using less.hyps[OF _ L] by (simp_all add: t cs dl)
    have IHr: "bare r' = bare r" "placed cfg (depth n + 1) r'"
      "branches acc' = branches acc2 @ map root (walkE cfg r')"
      using less.hyps[OF _ R] by (simp_all add: t cs dl)
    have rl: "root l' = root (leftOf cfg n l)" "root r' = root (rightOf cfg n r)"
      using branch_root[OF L] branch_root[OF R] by simp_all
    have len: "length_px (root l') = Some (childLength cfg n l')"
      "length_px (root r') = Some (childLength cfg n r')"
      using rl by (simp_all add: leftOf_def rightOf_def addBranchInformation_def childLength_def)
    show ?thesis
      using True IHl IHr len by (simp add: t cs t')
  qed
qed

fun reachesShort :: "jsnum \<Rightarrow> nat \<Rightarrow> tree \<Rightarrow> bool" where
  "reachesShort md k (Node n cs) =
     (\<not> jeq (num k) (jsub md (Fin 1)) \<and> kind n \<noteq> LeafNode \<and>
      (case cs of l # r # rest \<Rightarrow> reachesShort md (k + 1) l \<or> reachesShort md (k + 1) r
       | _ \<Rightarrow> True))"

lemma reachesShort_root:
  "root t' = root t \<Longrightarrow> children t' = children t \<Longrightarrow> reachesShort md k t' = reachesShort md k t"
  by (cases t; cases t') simp

lemma reachesShort_addBI [simp]:
  "reachesShort md k (addBranchInformation c px py a l d) = reachesShort md k c"
  by (cases c) (simp add: addBranchInformation_def)

lemma reachesShort_leftOf [simp]: "reachesShort md k (leftOf cfg n c) = reachesShort md k c"
  by (simp add: leftOf_def)
lemma reachesShort_rightOf [simp]: "reachesShort md k (rightOf cfg n c) = reachesShort md k c"
  by (simp add: rightOf_def)

lemma depth_leftOf [simp]: "depth (root (leftOf cfg n c)) = depth n + 1"
  by (simp add: leftOf_def addBranchInformation_def)
lemma depth_rightOf [simp]: "depth (root (rightOf cfg n c)) = depth n + 1"
  by (simp add: rightOf_def addBranchInformation_def)


lemma branch_TypeError:
  "(reachesShort (maxDepth cfg) (depth (root t)) t \<and> branch cfg acc t = Inl TypeError) \<or>
   (\<not> reachesShort (maxDepth cfg) (depth (root t)) t \<and> (\<exists>acc' t'. branch cfg acc t = Inr (acc', t')))"
proof (induction "size t" arbitrary: t acc rule: less_induct)
  case less
  obtain n cs where t: "t = Node n cs" by (cases t)
  show ?case
  proof (cases "expanded cfg n")
    case False
    with branch_stop[OF False, of acc cs] show ?thesis
      by (auto simp: t expanded_def)
  next
    case True
    show ?thesis
    proof (cases "List.length cs < 2")
      case True
      with branch_short[OF \<open>expanded cfg n\<close> True, of acc] \<open>expanded cfg n\<close> show ?thesis
        by (cases cs; cases "tl cs") (auto simp: t expanded_def)
    next
      case False
      then obtain l r rest where cs: "cs = l # r # rest"
        by (cases cs; cases "tl cs") auto
      let ?acc1 = "acc\<lparr>branches := branches acc @ [n]\<rparr>"
      have IHl: "(reachesShort (maxDepth cfg) (depth n + 1) l \<and> branch cfg ?acc1 (leftOf cfg n l) = Inl TypeError) \<or>
         (\<not> reachesShort (maxDepth cfg) (depth n + 1) l \<and> (\<exists>acc' t'. branch cfg ?acc1 (leftOf cfg n l) = Inr (acc', t')))"
        using less[of "leftOf cfg n l" ?acc1] by (simp add: t cs)
      have IHr: "\<And>acc2. (reachesShort (maxDepth cfg) (depth n + 1) r \<and> branch cfg acc2 (rightOf cfg n r) = Inl TypeError) \<or>
         (\<not> reachesShort (maxDepth cfg) (depth n + 1) r \<and> (\<exists>acc' t'. branch cfg acc2 (rightOf cfg n r) = Inr (acc', t')))"
        using less[of "rightOf cfg n r"] by (simp add: t cs)
      from True have rs: "reachesShort (maxDepth cfg) (depth n) (Node n (l # r # rest)) =
          (reachesShort (maxDepth cfg) (depth n + 1) l \<or> reachesShort (maxDepth cfg) (depth n + 1) r)"
        by (simp add: expanded_def)
      show ?thesis
      proof (cases "reachesShort (maxDepth cfg) (depth n + 1) l")
        case True
        with IHl have "branch cfg ?acc1 (leftOf cfg n l) = Inl TypeError" by auto
        with True show ?thesis
          unfolding t cs root.simps rs branch_expand[OF \<open>expanded cfg n\<close>] by simp
      next
        case False
        with IHl obtain acc2 l' where L: "branch cfg ?acc1 (leftOf cfg n l) = Inr (acc2, l')"
          by auto
        show ?thesis
        proof (cases "reachesShort (maxDepth cfg) (depth n + 1) r")
          case True
          with IHr[of acc2] have "branch cfg acc2 (rightOf cfg n r) = Inl TypeError" by auto
          with True L show ?thesis
            unfolding t cs root.simps rs branch_expand[OF \<open>expanded cfg n\<close>] by simp
        next
          case False
          with IHr[of acc2] obtain acc3 r' where "branch cfg acc2 (rightOf cfg n r) = Inr (acc3, r')"
            by auto
          with False \<open>\<not> reachesShort (maxDepth cfg) (depth n + 1) l\<close> L show ?thesis
            unfolding t cs root.simps rs branch_expand[OF \<open>expanded cfg n\<close>] by simp
        qed
      qed
    qed
  qed
qed







fun noZeroOverZero :: "tree \<Rightarrow> bool" where
  "noZeroOverZero (Node n cs) =
     (\<forall>c \<in> set cs. (samples n = 0 \<longrightarrow> samples (root c) \<noteq> 0) \<and> noZeroOverZero c)"

fun wellFormed :: "tree \<Rightarrow> bool" where
  "wellFormed (Node n cs) =
     (if kind n = LeafNode then cs = [] else List.length cs = 2 \<and> (\<forall>c \<in> set cs. wellFormed c))"

lemma childLength_Fin:
  assumes "maxShorteningFactor cfg = Fin m" "minBranchLength cfg = Fin b"
    "length_px n = Some (Fin L)" "samples n = 0 \<longrightarrow> samples (root c) \<noteq> 0"
  shows "\<exists>l. childLength cfg n c = Fin l \<and> b \<le> l"
  using assms
  by (auto simp: childLength_def num_def jmin_def jmax_def toNum_def jinf_def)

lemma noZeroOverZero_addBI [simp]:
  "noZeroOverZero (addBranchInformation c px py a l d) = noZeroOverZero c"
  by (cases c) (simp add: addBranchInformation_def)

lemma branch_min:
  assumes m: "maxShorteningFactor cfg = Fin m" and b: "minBranchLength cfg = Fin b"
  shows "branch cfg acc t = Inr (acc', t') \<Longrightarrow> noZeroOverZero t \<Longrightarrow>
     length_px (root t) = Some (Fin L) \<Longrightarrow>
     \<exists>new. branches acc' = branches acc @ root t # new \<and>
        (\<forall>v \<in> set new. \<exists>l. length_px v = Some (Fin l) \<and> b \<le> l)"
proof (induction "size t" arbitrary: t acc acc' t' L rule: less_induct)
  case less
  obtain n cs where t: "t = Node n cs" by (cases t)
  show ?case
  proof (cases "expanded cfg n")
    case False
    with less.prems(1) show ?thesis
      by (auto simp: t expanded_def Let_def split: if_splits)
  next
    case True
    have "\<not> List.length cs < 2"
      using less.prems(1) branch_short[OF True, of cs acc] by (auto simp: t)
    then obtain l r rest where cs: "cs = l # r # rest"
      by (cases cs; cases "tl cs") auto
    from less.prems(1) obtain acc2 l' r'
      where L: "branch cfg (acc\<lparr>branches := branches acc @ [n]\<rparr>) (leftOf cfg n l) = Inr (acc2, l')"
        and R: "branch cfg acc2 (rightOf cfg n r) = Inr (acc', r')"
      unfolding t cs branch_expand[OF True] by (auto split: sum.splits)
    from less.prems(2,3) obtain ll lr
      where ll: "childLength cfg n l = Fin ll" "b \<le> ll"
        and lr: "childLength cfg n r = Fin lr" "b \<le> lr"
      using childLength_Fin[OF m b, of n L l] childLength_Fin[OF m b, of n L r]
      by (auto simp: t cs)
    have nl: "noZeroOverZero (leftOf cfg n l)" and nr: "noZeroOverZero (rightOf cfg n r)"
      using less.prems(2) by (simp_all add: t cs leftOf_def rightOf_def)
    have pl: "length_px (root (leftOf cfg n l)) = Some (Fin ll)"
      and pr: "length_px (root (rightOf cfg n r)) = Some (Fin lr)"
      by (simp_all add: leftOf_def rightOf_def addBranchInformation_def ll lr)
    from less.hyps[OF _ L nl pl] obtain newl
      where newl: "branches acc2 = branches acc @ n # root (leftOf cfg n l) # newl"
        "\<forall>v \<in> set newl. \<exists>l. length_px v = Some (Fin l) \<and> b \<le> l"
      by (auto simp: t cs)
    from less.hyps[OF _ R nr pr] obtain newr
      where newr: "branches acc' = branches acc2 @ root (rightOf cfg n r) # newr"
        "\<forall>v \<in> set newr. \<exists>l. length_px v = Some (Fin l) \<and> b \<le> l"
      by (auto simp: t cs)
    have "branches acc' = branches acc @ root t #
        (root (leftOf cfg n l) # newl @ root (rightOf cfg n r) # newr)"
      by (simp add: newl newr t)
    moreover have "\<forall>v \<in> set (root (leftOf cfg n l) # newl @ root (rightOf cfg n r) # newr).
        \<exists>l. length_px v = Some (Fin l) \<and> b \<le> l"
      using newl(2) newr(2) pl pr ll lr by auto
    ultimately show ?thesis by blast
  qed
qed

lemma wellFormed_not_short:
  "wellFormed t \<Longrightarrow> \<not> reachesShort md k t"
proof (induction md k t rule: reachesShort.induct)
  case (1 md k n cs)
  then show ?case
    by (cases cs; cases "tl cs") (auto split: if_splits)
qed

definition drawStops :: "jsnum \<Rightarrow> node \<Rightarrow> tree list \<Rightarrow> bool" where
  "drawStops md n cs = (List.length cs = 0 \<or> jeq (num (depth n)) (jsub md (Fin 1)))"

definition drawChild :: "jsnum \<Rightarrow> node \<Rightarrow> nat \<Rightarrow> jsnum \<Rightarrow> tree \<Rightarrow> tree" where
  "drawChild ts n i a c =
     drawAddBranchInformation c i (x2 n) (y2 n) a (drawChildLength ts c) (depth n + 1) (index n)"

lemma applyStrategy_two:
  "applyStrategy s (Node n (c0 # c1 # rest)) = Inr (Some c0, Some c1) \<or>
   applyStrategy s (Node n (c0 # c1 # rest)) = Inr (Some c1, Some c0)"
  by (cases s) (auto simp: strategySIMPLE_def strategyUP_def elemAt_def)

lemma applyStrategy_one:
  "applyStrategy s (Node n [c0]) = Inr (Some c0, None) \<or>
   applyStrategy s (Node n [c0]) = Inr (None, Some c0)"
  by (cases s) (auto simp: strategySIMPLE_def strategyUP_def elemAt_def)

lemma drawBranch_stop:
  "drawStops md n cs \<Longrightarrow>
   drawBranch s ts md acc (Node n cs) =
     Inr (acc\<lparr>drawBranches := drawBranches acc @ [n],
              drawLeafs := drawLeafs acc @ [drawLeafOf n]\<rparr>)"
  by (auto simp: drawStops_def Let_def)

lemma drawBranch_one:
  "\<not> drawStops md n [c0] \<Longrightarrow> drawBranch s ts md acc (Node n [c0]) = Inl TypeError"
  using applyStrategy_one[of s n c0] by (auto simp: drawStops_def Let_def)

lemma drawBranch_expand:
  "\<not> drawStops md n cs \<Longrightarrow> applyStrategy s (Node n cs) = Inr (Some l, Some r) \<Longrightarrow>
   drawBranch s ts md acc (Node n cs) =
     (case drawBranch s ts md (acc\<lparr>drawBranches := drawBranches acc @ [n]\<rparr>)
             (drawChild ts n (Suc (List.length (drawBranches acc)))
                (jsub (toNum (angle n)) (childSkew n l)) l) of
        Inl e \<Rightarrow> Inl e
      | Inr acc2 \<Rightarrow>
          drawBranch s ts md acc2
            (drawChild ts n (List.length (drawBranches acc2))
               (jadd (toNum (angle n)) (childSkew n r)) r))"
  by (simp add: drawStops_def Let_def drawChild_def cong: sum.case_cong)

declare drawBranch.simps [simp del]

lemma size_drawChild [simp]: "size (drawChild ts n i a c) = size c"
  by (simp add: drawChild_def)

lemma root_drawChild:
  "length_px (root (drawChild ts n i a c)) = Some (drawChildLength ts c)"
  "samples (root (drawChild ts n i a c)) = samples (root c)"
  "depth (root (drawChild ts n i a c)) = depth n + 1"
  "children (drawChild ts n i a c) = children c"
  by (simp_all add: drawChild_def drawAddBranchInformation_def)

definition drawLengthOK :: "jsnum \<Rightarrow> node \<Rightarrow> bool" where
  "drawLengthOK ts v =
     (length_px v = Some (jadd (Fin 4) (jmul (jdiv (num (samples v)) ts) (Fin 100))))"

lemma drawLengthOK_child: "drawLengthOK ts (root (drawChild ts n i a c))"
  by (simp add: drawLengthOK_def root_drawChild drawChildLength_def)

lemma drawBranch_lengths:
  "drawBranch s ts md acc t = Inr acc' \<Longrightarrow>
     \<exists>new. drawBranches acc' = drawBranches acc @ root t # new \<and> list_all (drawLengthOK ts) new"
proof (induction "size t" arbitrary: t acc acc' rule: less_induct)
  case less
  obtain n cs where t: "t = Node n cs" by (cases t)
  show ?case
  proof (cases "drawStops md n cs")
    case True
    with less.prems show ?thesis
      by (auto simp: t drawBranch_stop)
  next
    case False
    then have "cs \<noteq> []" by (auto simp: drawStops_def)
    have "tl cs \<noteq> []"
    proof
      assume "tl cs = []"
      with \<open>cs \<noteq> []\<close> obtain c0 where "cs = [c0]" by (cases cs) auto
      with less.prems False drawBranch_one[of md n c0 s ts acc] show False
        by (simp add: t)
    qed
    with \<open>cs \<noteq> []\<close> obtain c0 c1 rest where cs: "cs = c0 # c1 # rest"
      by (cases cs; cases "tl cs") auto
    from applyStrategy_two[of s n c0 c1 rest] obtain l r
      where st: "applyStrategy s (Node n cs) = Inr (Some l, Some r)"
        and lr: "l \<in> set cs" "r \<in> set cs"
      by (auto simp: cs)
    let ?l = "drawChild ts n (Suc (List.length (drawBranches acc))) (jsub (toNum (angle n)) (childSkew n l)) l"
    from less.prems obtain acc2
      where L: "drawBranch s ts md (acc\<lparr>drawBranches := drawBranches acc @ [n]\<rparr>) ?l = Inr acc2"
        and R: "drawBranch s ts md acc2
            (drawChild ts n (List.length (drawBranches acc2)) (jadd (toNum (angle n)) (childSkew n r)) r) = Inr acc'"
      unfolding t drawBranch_expand[OF False st] by (auto split: sum.splits)
    have sz: "size l < size t" "size r < size t"
      using lr size_child[of l cs] size_child[of r cs] by (simp_all add: t)
    from less.hyps[OF _ L] sz obtain newl
      where newl: "drawBranches acc2 = drawBranches acc @ n # root ?l # newl"
        "list_all (drawLengthOK ts) newl"
      by auto
    from less.hyps[OF _ R] sz obtain newr
      where newr: "drawBranches acc' = drawBranches acc2 @
          root (drawChild ts n (List.length (drawBranches acc2)) (jadd (toNum (angle n)) (childSkew n r)) r) # newr"
        "list_all (drawLengthOK ts) newr"
      by auto
    show ?thesis
      using newl newr by (simp add: t drawLengthOK_child)
  qed
qed

fun drawReachesShort :: "jsnum \<Rightarrow> nat \<Rightarrow> tree \<Rightarrow> bool" where
  "drawReachesShort md k (Node n cs) =
     (cs \<noteq> [] \<and> \<not> jeq (num k) (jsub md (Fin 1)) \<and>
      (case cs of c0 # c1 # rest \<Rightarrow> drawReachesShort md (k + 1) c0 \<or> drawReachesShort md (k + 1) c1
       | _ \<Rightarrow> True))"

lemma drawReachesShort_drawChild [simp]:
  "drawReachesShort md k (drawChild ts n i a c) = drawReachesShort md k c"
  by (cases c) (simp add: drawChild_def drawAddBranchInformation_def)


lemma branch_out_first:
  "branch cfg acc t = Inr (acc', t') \<Longrightarrow> \<exists>new. branches acc' = branches acc @ root t # new"
proof (induction "size t" arbitrary: t acc acc' t' rule: less_induct)
  case less
  obtain n cs where t: "t = Node n cs" by (cases t)
  show ?case
  proof (cases "expanded cfg n")
    case False
    with less.prems show ?thesis
      by (auto simp: t expanded_def Let_def split: if_splits)
  next
    case True
    have "\<not> List.length cs < 2"
      using less.prems branch_short[OF True, of cs acc] by (auto simp: t)
    then obtain l r rest where cs: "cs = l # r # rest"
      by (cases cs; cases "tl cs") auto
    from less.prems obtain acc2 l' r'
      where L: "branch cfg (acc\<lparr>branches := branches acc @ [n]\<rparr>) (leftOf cfg n l) = Inr (acc2, l')"
        and R: "branch cfg acc2 (rightOf cfg n r) = Inr (acc', r')"
      unfolding t cs branch_expand[OF True] by (auto split: sum.splits)
    from less.hyps[OF _ L] less.hyps[OF _ R] show ?thesis
      by (auto simp: t cs)
  qed
qed

subsection \<open>Examples\<close>

text \<open>
  The tree of the end-to-end scenario: a root with 100 samples and two leaves with 40 and
  60 samples, laid out with the default parameters and no depth limit.
\<close>

definition exampleTree :: tree where
  "exampleTree =
     Node (mkNode InternalNode 0 100 0 [])
       [Node (mkNode LeafNode 1 40 0 []) [], Node (mkNode LeafNode 1 60 1 []) []]"

definition defaultConfig :: config where
  "defaultConfig =
     \<lparr>maxDepth = PInf, width = Fin 800, height = Fin 800, trunkLength = Fin 100,
      maxShorteningFactor = Fin (9 / 10), minBranchLength = Fin 4\<rparr>"

lemmas layout_eval =
  generateTreeElements_def defaultConfig_def exampleTree_def mkNode_def
  addBranchInformation_def Let_def jeq_def jsub_def num_def childLength_def childSkew_def
  jmin_def jmax_def toNum_def

lemmas draw_eval =
  drawGenerateTreeElements_def drawBranch.simps exampleTree_def mkNode_def
  drawAddBranchInformation_def Let_def jeq_def jsub_def num_def drawChildLength_def childSkew_def
  strategySIMPLE_def elemAt_def toNum_def

lemma generateTreeElements_placed:
  assumes g: "generateTreeElements cfg t = Inr (res, t')"
  shows "bare t' = bare t" "placed cfg 0 t'" "branches res = map root (walkE cfg t')"
    "length_px (root t') = Some (trunkLength cfg)"
proof -
  let ?t0 = "addBranchInformation t (Some (jdiv (width cfg) (Fin 2))) (Some (height cfg))
                (Fin 0) (trunkLength cfg) 0"
  from g obtain acc where b: "branch cfg \<lparr>branches = [], leafs = [], bunches = []\<rparr> ?t0 = Inr (acc, t')"
    and res: "res = acc\<lparr>leafs := sortBySamples leaf_samples (leafs acc),
                        bunches := sortBySamples bunch_samples (bunches acc)\<rparr>"
    by (auto simp: generateTreeElements_def split: sum.splits)
  have d0: "depth (root ?t0) = 0" "length_px (root ?t0) = Some (trunkLength cfg)"
    by (simp_all add: addBranchInformation_def)
  from branch_placed[OF b] d0 show "bare t' = bare t" "placed cfg 0 t'"
    "branches res = map root (walkE cfg t')"
    by (simp_all add: res)
  from branch_root[OF b] d0 show "length_px (root t') = Some (trunkLength cfg)" by simp
qed

lemma drawGenerateTreeElements_lengths:
  "drawGenerateTreeElements t ts md s = Inr dres \<Longrightarrow>
     list_all (drawLengthOK ts) (tl (drawBranches dres))"
  by (auto simp: drawGenerateTreeElements_def dest: drawBranch_lengths)

subsection \<open>Child branch length\<close>

text \<open>
  C5 (as amended). \<open>TreeView.generateTreeElements\<close> returns the tree it was given with
  the layout fields set: the root has the length \<open>trunkLength\<close> and the depth 0, and for
  every internal node that the recursion expands, each of the two children gets the length
  max(min(childSamples / parentSamples, maxShorteningFactor) * parentLength, minBranchLength)
  (\<open>childLength\<close>, in JavaScript arithmetic) and the depth of the node plus one; the
  branch records are the nodes of this walk, in pre-order. In \<open>app/draw.mjs\<close> every
  branch record but the root's has the length 4 + samples / totalSamples * 100.
\<close>

theorem child_branch_length:
  "(generateTreeElements cfg t = Inr (res, t') \<longrightarrow>
      bare t' = bare t \<and> length_px (root t') = Some (trunkLength cfg) \<and> placed cfg 0 t' \<and>
      branches res = map root (walkE cfg t')) \<and>
   (drawGenerateTreeElements t ts md s = Inr dres \<longrightarrow>
      list_all (drawLengthOK ts) (tl (drawBranches dres)))"
  using generateTreeElements_placed[of cfg t res t'] drawGenerateTreeElements_lengths[of t ts md s dres]
  by (intro conjI impI) simp_all

text \<open>Witness for C5: both layouts of the example tree succeed, with these lengths.\<close>

theorem child_branch_length_witness:
  "(\<exists>res t'. generateTreeElements defaultConfig exampleTree = Inr (res, t') \<and>
      map length_px (branches res) = [Some (Fin 100), Some (Fin 40), Some (Fin 60)] \<and>
      bare t' = bare exampleTree \<and> length_px (root t') = Some (Fin 100) \<and>
      placed defaultConfig 0 t' \<and> branches res = map root (walkE defaultConfig t')) \<and>
   (\<exists>dres. drawGenerateTreeElements exampleTree (Fin 100) PInf SIMPLE = Inr dres \<and>
      map length_px (drawBranches dres) = [Some (Fin 100), Some (Fin 44), Some (Fin 64)] \<and>
      list_all (drawLengthOK (Fin 100)) (tl (drawBranches dres)))"
proof -
  obtain res t' where g: "generateTreeElements defaultConfig exampleTree = Inr (res, t')"
    and l: "map length_px (branches res) = [Some (Fin 100), Some (Fin 40), Some (Fin 60)]"
    by (simp add: layout_eval)
  obtain dres where d: "drawGenerateTreeElements exampleTree (Fin 100) PInf SIMPLE = Inr dres"
    and dl: "map length_px (drawBranches dres) = [Some (Fin 100), Some (Fin 44), Some (Fin 64)]"
    by (simp add: draw_eval)
  from child_branch_length[of defaultConfig exampleTree res t' "Fin 100" PInf SIMPLE dres] g d
  have T: "bare t' = bare exampleTree" "length_px (root t') = Some (trunkLength defaultConfig)"
    "placed defaultConfig 0 t'" "branches res = map root (walkE defaultConfig t')"
    "list_all (drawLengthOK (Fin 100)) (tl (drawBranches dres))"
    by simp_all
  have tl: "trunkLength defaultConfig = Fin 100" by (simp add: defaultConfig_def)
  have A: "\<exists>res t'. generateTreeElements defaultConfig exampleTree = Inr (res, t') \<and>
      map length_px (branches res) = [Some (Fin 100), Some (Fin 40), Some (Fin 60)] \<and>
      bare t' = bare exampleTree \<and> length_px (root t') = Some (Fin 100) \<and>
      placed defaultConfig 0 t' \<and> branches res = map root (walkE defaultConfig t')"
    apply (rule exI[of _ res])
    apply (rule exI[of _ t'])
    using g l T(1-4)[unfolded tl] apply blast
    done
  have B: "\<exists>dres. drawGenerateTreeElements exampleTree (Fin 100) PInf SIMPLE = Inr dres \<and>
      map length_px (drawBranches dres) = [Some (Fin 100), Some (Fin 44), Some (Fin 64)] \<and>
      list_all (drawLengthOK (Fin 100)) (tl (drawBranches dres))"
    apply (rule exI[of _ dres])
    using d dl T(5) apply blast
    done
  show ?thesis by (intro conjI A B)
qed

text \<open>
  C5 as stated fails in \<open>app/draw.mjs\<close>: the leaf with 40 of 100 samples under the root of
  length 100 gets the length 44, where the stated formula gives 40 for the default
  maxShorteningFactor 0.9 and minBranchLength 4.
\<close>

theorem child_branch_length_counterexample:
  "map_sum id (map length_px \<circ> drawBranches)
     (drawGenerateTreeElements exampleTree (Fin 100) PInf SIMPLE) =
     Inr [Some (Fin 100), Some (Fin 44), Some (Fin 64)] \<and>
   jmax (jmul (jmin (jdiv (num 40) (num 100)) (Fin (9 / 10))) (Fin 100)) (Fin 4) = Fin 40"
  by (simp add: draw_eval jmin_def jmax_def)

subsection \<open>Truncation at maxDepth\<close>


lemma set_sortBySamples [simp]: "set (sortBySamples f xs) = set xs"
  by (simp add: sortBySamples_def)

lemma length_sortBySamples [simp]: "List.length (sortBySamples f xs) = List.length xs"
  by (simp add: sortBySamples_def)


















subsection \<open>Layout of well-formed trees\<close>

lemma generateTreeElements_TypeError:
  "(reachesShort (maxDepth cfg) 0 t \<and> generateTreeElements cfg t = Inl TypeError) \<or>
   (\<not> reachesShort (maxDepth cfg) 0 t \<and> (\<exists>res t'. generateTreeElements cfg t = Inr (res, t')))"
proof -
  let ?t0 = "addBranchInformation t (Some (jdiv (width cfg) (Fin 2))) (Some (height cfg))
                (Fin 0) (trunkLength cfg) 0"
  have "depth (root ?t0) = 0"
    by (simp add: addBranchInformation_def)
  with branch_TypeError[of cfg ?t0 "\<lparr>branches = [], leafs = [], bunches = []\<rparr>"]
  show ?thesis
    by (auto simp: generateTreeElements_def)
qed

lemma generateTreeElements_min:
  assumes g: "generateTreeElements cfg t = Inr (res, t')"
    and p: "trunkLength cfg = Fin trunk" "maxShorteningFactor cfg = Fin m" "minBranchLength cfg = Fin b"
  shows "map length_px (take 1 (branches res)) = [Some (Fin trunk)]"
    and "noZeroOverZero t \<Longrightarrow>
      list_all (\<lambda>v. \<exists>l. length_px v = Some (Fin l) \<and> b \<le> l) (tl (branches res))"
proof -
  let ?t0 = "addBranchInformation t (Some (jdiv (width cfg) (Fin 2))) (Some (height cfg))
                (Fin 0) (trunkLength cfg) 0"
  from g obtain acc where br: "branch cfg \<lparr>branches = [], leafs = [], bunches = []\<rparr> ?t0 = Inr (acc, t')"
    and res: "branches res = branches acc"
    by (auto simp: generateTreeElements_def split: sum.splits)
  have l0: "length_px (root ?t0) = Some (Fin trunk)"
    by (simp add: addBranchInformation_def p)
  from branch_out_first[OF br] l0 show "map length_px (take 1 (branches res)) = [Some (Fin trunk)]"
    by (auto simp: res)
  assume "noZeroOverZero t"
  then have "noZeroOverZero ?t0" by simp
  from branch_min[OF p(2,3) br this l0]
  show "list_all (\<lambda>v. \<exists>l. length_px v = Some (Fin l) \<and> b \<le> l) (tl (branches res))"
    by (auto simp: res list_all_iff)
qed

text \<open>
  C9 (as amended). For every tree in which each internal node has two children and each
  leaf none, the layout raises no error and returns, whatever the samples are (zero
  included) and also for a single-node tree. With finite parameters the root's branch
  record has the length trunkLength, and every other branch record has a finite length
  of at least minBranchLength, provided no node with zero samples has a child with zero
  samples.
\<close>

theorem layout_never_fails:
  assumes "wellFormed t"
  shows "\<exists>res t'. generateTreeElements cfg t = Inr (res, t') \<and>
     (trunkLength cfg = Fin trunk \<and> maxShorteningFactor cfg = Fin m \<and> minBranchLength cfg = Fin b \<longrightarrow>
        map length_px (take 1 (branches res)) = [Some (Fin trunk)] \<and>
        (noZeroOverZero t \<longrightarrow>
           list_all (\<lambda>v. \<exists>l. length_px v = Some (Fin l) \<and> b \<le> l) (tl (branches res))))"
proof -
  from wellFormed_not_short[OF assms] generateTreeElements_TypeError[of cfg t]
  obtain res t' where g: "generateTreeElements cfg t = Inr (res, t')"
    by auto
  show ?thesis
    using g generateTreeElements_min[OF g] by blast
qed

text \<open>
  Witness for C9: a root with zero samples over two leaves with 3 and 5 samples (both
  ratios are Infinity and are capped at 0.9), and a single-node tree.
\<close>

theorem layout_never_fails_witness:
  "wellFormed (Node (mkNode InternalNode 0 0 0 [])
      [Node (mkNode LeafNode 1 3 0 []) [], Node (mkNode LeafNode 1 5 1 []) []]) \<and>
   noZeroOverZero (Node (mkNode InternalNode 0 0 0 [])
      [Node (mkNode LeafNode 1 3 0 []) [], Node (mkNode LeafNode 1 5 1 []) []]) \<and>
   (\<exists>res t'. generateTreeElements defaultConfig (Node (mkNode InternalNode 0 0 0 [])
      [Node (mkNode LeafNode 1 3 0 []) [], Node (mkNode LeafNode 1 5 1 []) []]) = Inr (res, t') \<and>
      map length_px (branches res) = [Some (Fin 100), Some (Fin 90), Some (Fin 90)] \<and>
      list_all (\<lambda>v. \<exists>l. length_px v = Some (Fin l) \<and> 4 \<le> l) (tl (branches res))) \<and>
   wellFormed (Node (mkNode LeafNode 0 7 0 []) []) \<and>
   (\<exists>res t'. generateTreeElements defaultConfig (Node (mkNode LeafNode 0 7 0 []) []) = Inr (res, t') \<and>
      map length_px (branches res) = [Some (Fin 100)])"
proof -
  let ?t = "Node (mkNode InternalNode 0 0 0 [])
      [Node (mkNode LeafNode 1 3 0 []) [], Node (mkNode LeafNode 1 5 1 []) []]"
  let ?s = "Node (mkNode LeafNode 0 7 0 []) []"
  have w: "wellFormed ?t" and z: "noZeroOverZero ?t" and ws: "wellFormed ?s"
    by (simp_all add: mkNode_def)
  have p: "trunkLength defaultConfig = Fin 100 \<and> maxShorteningFactor defaultConfig = Fin (9 / 10) \<and>
      minBranchLength defaultConfig = Fin 4"
    by (simp add: defaultConfig_def)
  from layout_never_fails[OF w, of defaultConfig 100 "9 / 10" 4]
  obtain res t' where g: "generateTreeElements defaultConfig ?t = Inr (res, t')"
    and i: "trunkLength defaultConfig = Fin 100 \<and> maxShorteningFactor defaultConfig = Fin (9 / 10) \<and>
      minBranchLength defaultConfig = Fin 4 \<longrightarrow>
        map length_px (take 1 (branches res)) = [Some (Fin 100)] \<and>
        (noZeroOverZero ?t \<longrightarrow>
           list_all (\<lambda>v. \<exists>l. length_px v = Some (Fin l) \<and> 4 \<le> l) (tl (branches res)))"
    by (elim exE conjE)
  from i p z have m: "list_all (\<lambda>v. \<exists>l. length_px v = Some (Fin l) \<and> 4 \<le> l) (tl (branches res))"
    by simp
  from g have e: "map length_px (branches res) = [Some (Fin 100), Some (Fin 90), Some (Fin 90)]"
    by (auto simp: layout_eval jinf_def)
  from layout_never_fails[OF ws, of defaultConfig 100 "9 / 10" 4]
  obtain res1 t1 where g1: "generateTreeElements defaultConfig ?s = Inr (res1, t1)"
    and i1: "trunkLength defaultConfig = Fin 100 \<and> maxShorteningFactor defaultConfig = Fin (9 / 10) \<and>
      minBranchLength defaultConfig = Fin 4 \<longrightarrow>
        map length_px (take 1 (branches res1)) = [Some (Fin 100)] \<and>
        (noZeroOverZero ?s \<longrightarrow>
           list_all (\<lambda>v. \<exists>l. length_px v = Some (Fin l) \<and> 4 \<le> l) (tl (branches res1)))"
    by (elim exE conjE)
  from i1 p have e1: "map length_px (take 1 (branches res1)) = [Some (Fin 100)]"
    by simp
  from g1 have "List.length (branches res1) = 1"
    by (auto simp: layout_eval)
  with e1 have e1': "map length_px (branches res1) = [Some (Fin 100)]"
    by simp
  have A: "\<exists>res t'. generateTreeElements defaultConfig ?t = Inr (res, t') \<and>
      map length_px (branches res) = [Some (Fin 100), Some (Fin 90), Some (Fin 90)] \<and>
      list_all (\<lambda>v. \<exists>l. length_px v = Some (Fin l) \<and> 4 \<le> l) (tl (branches res))"
    apply (rule exI[of _ res])
    apply (rule exI[of _ t'])
    apply (intro conjI)
      apply (rule g)
     apply (rule e)
    apply (rule m)
    done
  have B: "\<exists>res t'. generateTreeElements defaultConfig ?s = Inr (res, t') \<and>
      map length_px (branches res) = [Some (Fin 100)]"
    apply (rule exI[of _ res1])
    apply (rule exI[of _ t1])
    apply (intro conjI)
     apply (rule g1)
    apply (rule e1')
    done
  show ?thesis
    by (intro conjI w z ws A B)
qed

text \<open>
  C9 as stated fails for a single-node tree laid out with trunkLength 1: its only branch
  record has the length 1, below the minBranchLength 4.
\<close>

theorem layout_never_fails_counterexample:
  "map_sum id (map length_px \<circ> branches \<circ> fst)
     (generateTreeElements (defaultConfig\<lparr>trunkLength := Fin 1\<rparr>)
        (Node (mkNode LeafNode 0 7 0 []) [])) = Inr [Some (Fin 1)] \<and>
   minBranchLength (defaultConfig\<lparr>trunkLength := Fin 1\<rparr>) = Fin 4 \<and>
   \<not> jge (Fin 1) (Fin 4)"
  by (simp add: layout_eval jge_def)

text \<open>
  Where a node and its child both have zero samples the ratio is 0 / 0: the child's
  length is \<open>NaN\<close>, which \<open>Math.max\<close> does not raise to minBranchLength.
\<close>

lemma zero_samples_NaN:
  "map_sum id (map length_px \<circ> branches \<circ> fst)
     (generateTreeElements defaultConfig (Node (mkNode InternalNode 0 0 0 [])
        [Node (mkNode LeafNode 1 0 0 []) [], Node (mkNode LeafNode 1 0 1 []) []])) =
     Inr [Some (Fin 100), Some NaN, Some NaN] \<and>
   \<not> jge NaN (Fin 4)"
  by (simp add: layout_eval jge_def jinf_def)

section \<open>Properties of the parser\<close>

subsection \<open>Errors\<close>

text \<open>A record line with one of the two accepted field counts.\<close>

definition okLine :: "string \<Rightarrow> bool" where
  "okLine line = (List.length (split '';'' line) = 11 \<or> List.length (split '';'' line) = 6)"

lemma parseLine_cases:
  "(okLine l \<and> (\<exists>n. parseLine ctor l = Inr n)) \<or> (\<not> okLine l \<and> parseLine ctor l = Inl FormatError)"
  by (auto simp: parseLine_def okLine_def Let_def)

lemma parseLines_cases:
  "(list_all okLine ls \<and> (\<exists>ns. parseLines ctor ls = Inr ns \<and> List.length ns = List.length ls)) \<or>
   (\<not> list_all okLine ls \<and> parseLines ctor ls = Inl FormatError)"
proof (induction ls)
  case Nil
  show ?case by simp
next
  case (Cons l ls)
  with parseLine_cases[of l ctor] show ?case
    by (auto split: sum.splits)
qed

lemma add_error: "add h p c = Inl e \<Longrightarrow> e = ChildRejected"
  by (auto simp: add_def split: if_splits)

lemma adjust_Structural:
  "(adjust h stack i = Inl StructuralError) =
     (stack \<noteq> [] \<and> depth (val (h ! last stack)) + 1 < depth (val (h ! i)))"
  by (auto simp: adjust_def top_def)

lemma adjust_error: "adjust h stack i = Inl e \<Longrightarrow> e = TypeError \<or> e = StructuralError"
  by (auto simp: adjust_def top_def split: if_splits)

lemma step_Structural:
  "(step (h, stack) i = Inl StructuralError) =
     (stack \<noteq> [] \<and> depth (val (h ! last stack)) + 1 < depth (val (h ! i)))"
proof -
  have "(step (h, stack) i = Inl StructuralError) = (adjust h stack i = Inl StructuralError)"
    by (auto simp: step_def split: sum.splits option.splits dest: add_error)
  then show ?thesis by (simp add: adjust_Structural)
qed

lemma step_error:
  "step st i = Inl e \<Longrightarrow> e = TypeError \<or> e = StructuralError \<or> e = ChildRejected"
  by (auto simp: step_def split: sum.splits option.splits dest: add_error adjust_error)

lemma iterate_error:
  "iterate st is = Inl e \<Longrightarrow> e = TypeError \<or> e = StructuralError \<or> e = ChildRejected"
  by (induction "is" arbitrary: st) (auto split: sum.splits dest: step_error)

lemma buildTree_error:
  "buildTree ns = Inl e \<Longrightarrow> e = TypeError \<or> e = StructuralError \<or> e = ChildRejected"
  by (cases "iterate (map fresh ns, [0]) [1..<List.length ns]")
     (auto simp: buildTree_def split: if_splits dest: iterate_error)

lemma parse_FormatError:
  "(parseStatisticsContent ctor text = Inl FormatError) = (\<not> list_all okLine (records text))"
  using parseLines_cases[of "records text" ctor]
  by (auto simp: parseStatisticsContent_def dest: buildTree_error)

text \<open>\<open>add\<close> changes the links of two objects and no other field.\<close>

lemma map_update_same: "(map f xs)[i := f (xs ! i)] = map f xs"
  by (cases "i < List.length xs") (simp_all add: list_update_same_conv not_less list_update_beyond)

lemma add_vals: "add h p c = Inr h' \<Longrightarrow> map val h' = map val h"
  by (auto simp: add_def map_update map_update_same split: if_splits)

lemma add_length: "add h p c = Inr h' \<Longrightarrow> List.length h' = List.length h"
  by (auto simp: add_def split: if_splits)

lemma step_props:
  assumes "step (h, stack) i = Inr (h', stack')"
  shows "map val h' = map val h" "stack' \<noteq> []" "last stack' = i"
  using assms
  by (auto simp: step_def split: sum.splits option.splits dest: add_vals)

lemma iterate_Structural:
  "iterate (h, stack) [i..<n] = Inl StructuralError \<Longrightarrow> stack \<noteq> [] \<Longrightarrow> last stack + 1 = i \<Longrightarrow>
   n \<le> List.length h \<Longrightarrow>
   \<exists>j. i \<le> j \<and> j < n \<and> depth (map val h ! (j - 1)) + 1 < depth (map val h ! j)"
proof (induction "n - i" arbitrary: i h stack)
  case 0
  then show ?case by simp
next
  case (Suc k)
  then have lt: "i < n" by simp
  then have u: "[i..<n] = i # [Suc i..<n]" by (simp add: upt_rec)
  show ?case
  proof (cases "step (h, stack) i")
    case (Inl e)
    with Suc.prems(1) have "step (h, stack) i = Inl StructuralError"
      by (simp add: u)
    then have "depth (val (h ! last stack)) + 1 < depth (val (h ! i))"
      by (simp add: step_Structural)
    with Suc.prems lt show ?thesis
      by (intro exI[of _ i]) auto
  next
    case (Inr st')
    obtain h' stack' where st': "st' = (h', stack')" by (cases st')
    note p = step_props[OF Inr[unfolded st']]
    have len: "List.length h' = List.length h"
      using p(1) by (metis length_map)
    from Suc.prems(1) have "iterate (h', stack') [Suc i..<n] = Inl StructuralError"
      by (simp add: u Inr st')
    have "\<exists>j. Suc i \<le> j \<and> j < n \<and> depth (map val h' ! (j - 1)) + 1 < depth (map val h' ! j)"
    proof (rule Suc.hyps(1))
      show "k = n - Suc i" using Suc.hyps(2) by simp
      show "iterate (h', stack') [Suc i..<n] = Inl StructuralError" by fact
      show "stack' \<noteq> []" by (rule p(2))
      show "last stack' + 1 = Suc i" by (simp add: p(3))
      show "n \<le> List.length h'" using Suc.prems(4) len by simp
    qed
    then obtain j where "Suc i \<le> j" "j < n" "depth (map val h' ! (j - 1)) + 1 < depth (map val h' ! j)"
      by blast
    then show ?thesis
      by (intro exI[of _ j]) (auto simp: p(1))
  qed
qed

lemma buildTree_Structural:
  assumes "buildTree ns = Inl StructuralError"
  shows "\<exists>j. 0 < j \<and> j < List.length ns \<and> depth (ns ! (j - 1)) + 1 < depth (ns ! j)"
proof -
  from assms have ne: "ns \<noteq> []" and
    it: "iterate (map fresh ns, [0]) [1..<List.length ns] = Inl StructuralError"
    by (cases "iterate (map fresh ns, [0]) [1..<List.length ns]";
        auto simp: buildTree_def split: if_splits)+
  have v: "map val (map fresh ns) = ns"
    by (simp add: fresh_def comp_def)
  from iterate_Structural[OF it] v obtain j
    where "1 \<le> j" "j < List.length ns" "depth (ns ! (j - 1)) + 1 < depth (ns ! j)"
    by auto
  then show ?thesis
    by (intro exI[of _ j]) auto
qed

text \<open>
  The loop stops at the first pass that fails. Before the pass for record \<open>k\<close> the arena
  holds the records as they were read and the stack top is record \<open>k - 1\<close>.
\<close>

lemma iterate_append:
  "iterate st (xs @ ys) = (case iterate st xs of Inl e \<Rightarrow> Inl e | Inr st' \<Rightarrow> iterate st' ys)"
  by (induction xs arbitrary: st) (auto split: sum.splits)

lemma iterate_first_error:
  "iterate st [i..<n] = Inl e \<Longrightarrow>
     \<exists>k st'. i \<le> k \<and> k < n \<and> iterate st [i..<k] = Inr st' \<and> step st' k = Inl e"
proof (induction n)
  case 0
  then show ?case by simp
next
  case (Suc n)
  show ?case
  proof (cases "i \<le> n")
    case False
    with Suc.prems show ?thesis by simp
  next
    case True
    then have u: "[i..<Suc n] = [i..<n] @ [n]" by simp
    show ?thesis
    proof (cases "iterate st [i..<n]")
      case (Inl e')
      with Suc.prems[unfolded u] have "e' = e" by (simp add: iterate_append)
      with Inl Suc.IH obtain k st' where "i \<le> k" "k < n" "iterate st [i..<k] = Inr st'"
        "step st' k = Inl e" by blast
      then show ?thesis
        by (intro exI[of _ k] exI[of _ st']) simp
    next
      case (Inr st')
      with Suc.prems[unfolded u] have "step st' n = Inl e"
        by (simp add: iterate_append split: sum.splits)
      with Inr True show ?thesis
        by (intro exI[of _ n] exI[of _ st']) simp
    qed
  qed
qed

lemma iterate_reached:
  "0 < k \<Longrightarrow> iterate (map fresh ns, [0]) [1..<k] = Inr (hh, stack) \<Longrightarrow>
     map val hh = ns \<and> stack \<noteq> [] \<and> last stack = k - 1"
proof (induction k arbitrary: hh stack)
  case 0
  then show ?case by simp
next
  case (Suc k)
  show ?case
  proof (cases "k = 0")
    case True
    with Suc.prems show ?thesis by (auto simp: fresh_def comp_def)
  next
    case False
    then have u: "[1..<Suc k] = [1..<k] @ [k]" by simp
    from Suc.prems(2) obtain hh0 stack0
      where i0: "iterate (map fresh ns, [0]) [1..<k] = Inr (hh0, stack0)"
        and s: "step (hh0, stack0) k = Inr (hh, stack)"
      unfolding u iterate_append by (auto split: sum.splits)
    from Suc.IH[OF _ i0] False have "map val hh0 = ns" by simp
    with step_props[OF s] show ?thesis by simp
  qed
qed

lemma reached_jump:
  assumes k: "0 < k" "k < List.length ns"
    and it: "iterate (map fresh ns, [0]) [1..<k] = Inr (hh, stack)"
  shows "map val hh = ns" "top stack = Some (k - 1)"
    "(step (hh, stack) k = Inl StructuralError) = (depth (ns ! (k - 1)) + 1 < depth (ns ! k))"
proof -
  note r = iterate_reached[OF k(1) it]
  from r show v: "map val hh = ns" by simp
  from r show "top stack = Some (k - 1)" by (simp add: top_def)
  have lh: "List.length hh = List.length ns"
    using v by (metis length_map)
  have n: "val (hh ! j) = ns ! j" if "j < List.length ns" for j
    using v lh that by (metis nth_map)
  show "(step (hh, stack) k = Inl StructuralError) = (depth (ns ! (k - 1)) + 1 < depth (ns ! k))"
    using r k n[of k] n[of "k - 1"] by (simp add: step_Structural)
qed

lemma buildTree_Structural_iff:
  "(buildTree ns = Inl StructuralError) =
     (\<exists>k hh stack. 0 < k \<and> k < List.length ns \<and>
        iterate (map fresh ns, [0]) [1..<k] = Inr (hh, stack) \<and>
        depth (ns ! (k - 1)) + 1 < depth (ns ! k))"
proof
  assume b: "buildTree ns = Inl StructuralError"
  then have ne: "ns \<noteq> []" and
    it: "iterate (map fresh ns, [0]) [1..<List.length ns] = Inl StructuralError"
    by (cases "iterate (map fresh ns, [0]) [1..<List.length ns]";
        auto simp: buildTree_def split: if_splits)+
  from iterate_first_error[OF it] obtain k st' where k: "1 \<le> k" "k < List.length ns"
    and i: "iterate (map fresh ns, [0]) [1..<k] = Inr st'"
    and s: "step st' k = Inl StructuralError"
    by blast
  obtain hh stack where st': "st' = (hh, stack)" by (cases st')
  from k have k0: "0 < k" by simp
  from reached_jump(3)[OF k0 k(2) i[unfolded st']] s
  have "depth (ns ! (k - 1)) + 1 < depth (ns ! k)" by (simp add: st')
  with k0 k(2) i show "\<exists>k hh stack. 0 < k \<and> k < List.length ns \<and>
        iterate (map fresh ns, [0]) [1..<k] = Inr (hh, stack) \<and>
        depth (ns ! (k - 1)) + 1 < depth (ns ! k)"
    unfolding st' by blast
next
  assume "\<exists>k hh stack. 0 < k \<and> k < List.length ns \<and>
        iterate (map fresh ns, [0]) [1..<k] = Inr (hh, stack) \<and>
        depth (ns ! (k - 1)) + 1 < depth (ns ! k)"
  then obtain k hh stack where k: "0 < k" "k < List.length ns"
    and i: "iterate (map fresh ns, [0]) [1..<k] = Inr (hh, stack)"
    and j: "depth (ns ! (k - 1)) + 1 < depth (ns ! k)"
    by blast
  from reached_jump(3)[OF k i] j have s: "step (hh, stack) k = Inl StructuralError" by simp
  have "[1..<k + (List.length ns - k)] = [1..<k] @ [k..<k + (List.length ns - k)]"
    using k(1) by (intro upt_add_eq_append) simp
  moreover have "[k..<List.length ns] = k # [Suc k..<List.length ns]"
    using k(2) by (rule upt_conv_Cons)
  ultimately have "[1..<List.length ns] = [1..<k] @ k # [Suc k..<List.length ns]"
    using k(2) by simp
  then have "iterate (map fresh ns, [0]) [1..<List.length ns] = Inl StructuralError"
    using i s by (simp add: iterate_append)
  moreover from k have "ns \<noteq> []" by auto
  ultimately show "buildTree ns = Inl StructuralError"
    by (simp add: buildTree_def)
qed

subsection \<open>Reference reconstruction\<close>

text \<open>
  The reference reconstruction of a pre-order listing: given the depths of the records,
  the parent of a record is the nearest preceding record one level up (\<open>lastAt ds m k\<close>
  is the last record before \<open>m\<close> of depth \<open>k\<close>), the first record and records of
  depth 0 have none, and the children of a record are the records it is the parent of,
  in the order of the listing.
\<close>

fun lastAt :: "nat list \<Rightarrow> nat \<Rightarrow> nat \<Rightarrow> nat option" where
  "lastAt ds 0 k = None"
| "lastAt ds (Suc m) k = (if ds ! m = k then Some m else lastAt ds m k)"

definition refParent :: "nat list \<Rightarrow> nat \<Rightarrow> nat option" where
  "refParent ds i = (if i = 0 \<or> ds ! i = 0 then None else lastAt ds i (ds ! i - 1))"

definition refChildren :: "nat list \<Rightarrow> nat \<Rightarrow> nat list" where
  "refChildren ds j = filter (\<lambda>i. refParent ds i = Some j) [0..<List.length ds]"

lemma lastAt_less: "lastAt ds m k = Some j \<Longrightarrow> j < m \<and> ds ! j = k"
  by (induction m) (auto split: if_splits)

definition depths :: "cell list \<Rightarrow> nat list" where
  "depths h = map (\<lambda>c. depth (val c)) h"

definition parserInv :: "node list \<Rightarrow> nat \<Rightarrow> cell list \<times> nat list \<Rightarrow> bool" where
  "parserInv ns m st =
     (case st of (h, stack) \<Rightarrow>
        map val h = ns \<and>
        List.length stack = depth (ns ! (m - 1)) + 1 \<and> last stack = m - 1 \<and>
        (\<forall>k < List.length stack. lastAt (map depth ns) m k = Some (stack ! k)) \<and>
        (\<forall>i < List.length ns. parent_ref (h ! i) = (if i < m then refParent (map depth ns) i else None)) \<and>
        (\<forall>j < List.length ns. children_refs (h ! j) =
            filter (\<lambda>i. refParent (map depth ns) i = Some j) [0..<m]) \<and>
        (\<forall>i < m. 0 < i \<longrightarrow> refParent (map depth ns) i \<noteq> None))"

lemma parserInv_init:
  "ns \<noteq> [] \<Longrightarrow> depth (ns ! 0) = 0 \<Longrightarrow> parserInv ns 1 (map fresh ns, [0])"
  by (auto simp: parserInv_def fresh_def comp_def refParent_def)

lemma adjust_take:
  assumes "adjust h stack i = Inr adj" "List.length stack = depth (val (h ! last stack)) + 1"
  shows "adj = take (depth (val (h ! i))) stack \<and> depth (val (h ! i)) \<le> List.length stack"
  using assms
  by (auto simp: adjust_def top_def butlast_conv_take split: if_splits)

lemma step_inv:
  assumes inv: "parserInv ns m (h, stack)" and m: "0 < m" "m < List.length ns"
    and st: "step (h, stack) m = Inr (h', stack')"
  shows "parserInv ns (Suc m) (h', stack')"
proof -
  let ?ds = "map depth ns"
  let ?d = "depth (ns ! m)"
  from inv have vals: "map val h = ns"
    and len: "List.length stack = depth (ns ! (m - 1)) + 1"
    and lst: "last stack = m - 1"
    and anc: "\<And>k. k < List.length stack \<Longrightarrow> lastAt ?ds m k = Some (stack ! k)"
    and par: "\<And>i. i < List.length ns \<Longrightarrow> parent_ref (h ! i) = (if i < m then refParent ?ds i else None)"
    and chi: "\<And>j. j < List.length ns \<Longrightarrow> children_refs (h ! j) =
            filter (\<lambda>i. refParent ?ds i = Some j) [0..<m]"
    and hasp: "\<And>i. i < m \<Longrightarrow> 0 < i \<Longrightarrow> refParent ?ds i \<noteq> None"
    by (auto simp: parserInv_def)
  have lh: "List.length h = List.length ns"
    using vals by (metis length_map)
  have v: "\<And>i. i < List.length ns \<Longrightarrow> val (h ! i) = ns ! i"
    using vals lh by (metis nth_map)
  from st obtain adj p where adj: "adjust h stack m = Inr adj" and tp: "top adj = Some p"
    and ad: "add h p m = Inr h'" and s': "stack' = adj @ [m]"
    by (auto simp: step_def split: sum.splits option.splits)
  have "List.length stack = depth (val (h ! last stack)) + 1"
    using len lst m v[of "m - 1"] by simp
  from adjust_take[OF adj this] have adj_eq: "adj = take ?d stack" and dle: "?d \<le> List.length stack"
    using v[OF m(2)] by simp_all
  from tp have ane: "adj \<noteq> []" and p: "p = last adj"
    by (auto simp: top_def split: if_splits)
  from ane adj_eq have dpos: "0 < ?d" by auto
  have ladj: "List.length adj = ?d" using adj_eq dle by simp
  have p_eq: "p = stack ! (?d - 1)"
    using p ane adj_eq ladj dpos dle by (simp add: last_conv_nth)
  have pl: "lastAt ?ds m (?d - 1) = Some p"
    using anc[of "?d - 1"] dpos dle p_eq by simp
  then have p_lt: "p < m" using lastAt_less by blast
  have refm: "refParent ?ds m = Some p"
    using pl m dpos by (simp add: refParent_def)
  from ad have h': "h' = (h[p := (h ! p)\<lparr>children_refs := children_refs (h ! p) @ [m]\<rparr>])
                  [m := (h ! m)\<lparr>parent_ref := Some p\<rparr>]"
    by (auto simp: add_def split: if_splits)
  have 1: "map val h' = ns"
    using add_vals[OF ad] vals by simp
  have 2: "List.length stack' = depth (ns ! (Suc m - 1)) + 1" "last stack' = Suc m - 1"
    by (simp_all add: s' ladj)
  have 3: "\<forall>k < List.length stack'. lastAt ?ds (Suc m) k = Some (stack' ! k)"
  proof (intro allI impI)
    fix k assume "k < List.length stack'"
    then have k: "k \<le> ?d" by (simp add: s' ladj)
    show "lastAt ?ds (Suc m) k = Some (stack' ! k)"
    proof (cases "k = ?d")
      case True
      then show ?thesis using m by (simp add: s' ladj nth_append)
    next
      case False
      with k have kl: "k < ?d" by simp
      then have "stack' ! k = stack ! k"
        using dle ladj by (simp add: s' nth_append adj_eq)
      moreover have "lastAt ?ds m k = Some (stack ! k)"
        using anc[of k] kl dle by simp
      ultimately show ?thesis using False m by simp
    qed
  qed
  have 4: "\<forall>i < List.length ns. parent_ref (h' ! i) = (if i < Suc m then refParent ?ds i else None)"
  proof (intro allI impI)
    fix i assume i: "i < List.length ns"
    show "parent_ref (h' ! i) = (if i < Suc m then refParent ?ds i else None)"
    proof (cases "i = m")
      case True
      then show ?thesis using m lh refm by (simp add: h')
    next
      case False
      then have "parent_ref (h' ! i) = parent_ref (h ! i)"
        using i lh by (cases "i = p") (simp_all add: h')
      then show ?thesis using par[OF i] False by auto
    qed
  qed
  have 5: "\<forall>j < List.length ns. children_refs (h' ! j) =
            filter (\<lambda>i. refParent ?ds i = Some j) [0..<Suc m]"
  proof (intro allI impI)
    fix j assume j: "j < List.length ns"
    show "children_refs (h' ! j) = filter (\<lambda>i. refParent ?ds i = Some j) [0..<Suc m]"
    proof (cases "j = p")
      case True
      then have "children_refs (h' ! j) = children_refs (h ! j) @ [m]"
        using j lh p_lt by (simp add: h')
      then show ?thesis using chi[OF j] refm True by simp
    next
      case False
      then have "children_refs (h' ! j) = children_refs (h ! j)"
        using j lh by (cases "j = m") (simp_all add: h')
      then show ?thesis using chi[OF j] refm False by simp
    qed
  qed
  have 6: "\<forall>i < Suc m. 0 < i \<longrightarrow> refParent ?ds i \<noteq> None"
  proof (intro allI impI)
    fix i assume "i < Suc m" "0 < i"
    then show "refParent ?ds i \<noteq> None"
      using hasp[of i] refm by (cases "i = m") auto
  qed
  show ?thesis
    unfolding parserInv_def using 1 2 3 4 5 6 by simp
qed

lemma iterate_inv:
  "iterate (h, stack) [m..<n] = Inr (h', stack') \<Longrightarrow> parserInv ns m (h, stack) \<Longrightarrow>
   0 < m \<Longrightarrow> m \<le> n \<Longrightarrow> n \<le> List.length ns \<Longrightarrow> parserInv ns n (h', stack')"
proof (induction "n - m" arbitrary: m h stack)
  case 0
  then show ?case by simp
next
  case (Suc k)
  then have lt: "m < n" by simp
  then have u: "[m..<n] = m # [Suc m..<n]" by (simp add: upt_rec)
  from Suc.prems(1) obtain h1 stack1 where s1: "step (h, stack) m = Inr (h1, stack1)"
    and it: "iterate (h1, stack1) [Suc m..<n] = Inr (h', stack')"
    by (auto simp: u split: sum.splits)
  have "parserInv ns (Suc m) (h1, stack1)"
    using step_inv[OF Suc.prems(2) Suc.prems(3) _ s1] lt Suc.prems(5) by simp
  with Suc.hyps(1)[OF _ it] Suc.hyps(2) lt Suc.prems(5) show ?case
    by simp
qed

lemma buildTree_reference:
  assumes b: "buildTree ns = Inr h" and ne: "ns \<noteq> []" and d0: "depth (ns ! 0) = 0"
  shows "map val h = ns"
    and "\<forall>i < List.length ns. parent_ref (h ! i) = refParent (map depth ns) i \<and>
           children_refs (h ! i) = refChildren (map depth ns) i"
    and "\<forall>i < List.length ns. 0 < i \<longrightarrow> refParent (map depth ns) i \<noteq> None"
proof -
  from b ne obtain stack where it: "iterate (map fresh ns, [0]) [1..<List.length ns] = Inr (h, stack)"
    by (cases "iterate (map fresh ns, [0]) [1..<List.length ns]") (auto simp: buildTree_def)
  have "parserInv ns (List.length ns) (h, stack)"
    using iterate_inv[OF it parserInv_init[OF ne d0]] ne by (simp add: Suc_leI)
  then show "map val h = ns"
    and "\<forall>i < List.length ns. parent_ref (h ! i) = refParent (map depth ns) i \<and>
           children_refs (h ! i) = refChildren (map depth ns) i"
    and "\<forall>i < List.length ns. 0 < i \<longrightarrow> refParent (map depth ns) i \<noteq> None"
    by (auto simp: parserInv_def refChildren_def)
qed

subsection \<open>Arity\<close>

definition arityOK :: "cell \<Rightarrow> bool" where
  "arityOK c = (List.length (children_refs c) \<le> 2 \<and> (kind (val c) = LeafNode \<longrightarrow> children_refs c = []))"

lemma add_arity:
  assumes "add h p c = Inr h'" "list_all arityOK h"
  shows "list_all arityOK h'"
proof -
  from assms(1) have h': "h' = (h[p := (h ! p)\<lparr>children_refs := children_refs (h ! p) @ [c]\<rparr>])
                  [c := (h ! c)\<lparr>parent_ref := Some p\<rparr>]"
    and k: "kind (val (h ! p)) \<noteq> LeafNode" "List.length (children_refs (h ! p)) < 2"
    by (auto simp: add_def split: if_splits)
  have a: "arityOK ((h ! p)\<lparr>children_refs := children_refs (h ! p) @ [c]\<rparr>)"
    using k by (simp add: arityOK_def)
  have b: "c < List.length h \<Longrightarrow> arityOK ((h ! c)\<lparr>parent_ref := Some p\<rparr>)"
    using assms(2) by (simp add: arityOK_def list_all_length)
  show ?thesis
  proof (cases "c < List.length h")
    case True
    have "set h' \<subseteq> insert ((h ! c)\<lparr>parent_ref := Some p\<rparr>)
        (insert ((h ! p)\<lparr>children_refs := children_refs (h ! p) @ [c]\<rparr>) (set h))"
      unfolding h' by (meson insert_mono order_trans set_update_subset_insert)
    with a b[OF True] assms(2) show ?thesis
      by (auto simp: list_all_iff)
  next
    case False
    then have "h' = h[p := (h ! p)\<lparr>children_refs := children_refs (h ! p) @ [c]\<rparr>]"
      by (simp add: h' list_update_beyond not_less)
    then have "set h' \<subseteq> insert ((h ! p)\<lparr>children_refs := children_refs (h ! p) @ [c]\<rparr>) (set h)"
      by (simp add: set_update_subset_insert)
    with a assms(2) show ?thesis
      by (auto simp: list_all_iff)
  qed
qed

lemma step_arity: "step (h, stack) i = Inr (h', stack') \<Longrightarrow> list_all arityOK h \<Longrightarrow> list_all arityOK h'"
  by (auto simp: step_def split: sum.splits option.splits dest: add_arity)

lemma iterate_arity:
  "iterate st is = Inr st' \<Longrightarrow> list_all arityOK (fst st) \<Longrightarrow> list_all arityOK (fst st')"
proof (induction "is" arbitrary: st)
  case Nil
  then show ?case by simp
next
  case (Cons i "is")
  from Cons.prems(1) obtain st1 where s: "step st i = Inr st1" and it: "iterate st1 is = Inr st'"
    by (auto split: sum.splits)
  from step_arity[of "fst st" "snd st" i "fst st1" "snd st1"] s Cons.prems(2)
  have "list_all arityOK (fst st1)" by simp
  from Cons.IH[OF it this] show ?case .
qed

lemma buildTree_arity: "buildTree ns = Inr h \<Longrightarrow> list_all arityOK h"
proof (cases "ns = []")
  case True
  assume "buildTree ns = Inr h"
  with True show ?thesis by (simp add: buildTree_def)
next
  case False
  assume b: "buildTree ns = Inr h"
  with False obtain stack where it: "iterate (map fresh ns, [0]) [1..<List.length ns] = Inr (h, stack)"
    by (cases "iterate (map fresh ns, [0]) [1..<List.length ns]") (auto simp: buildTree_def)
  have "list_all arityOK (map fresh ns)"
    by (simp add: list_all_iff arityOK_def fresh_def)
  from iterate_arity[OF it] this show ?thesis by simp
qed

subsection \<open>Example texts\<close>

fun joinLines :: "string list \<Rightarrow> string" where
  "joinLines [] = []"
| "joinLines [l] = l"
| "joinLines (l # ls) = l @ CHR 0x0A # joinLines ls"


text \<open>
  Two header lines, then the records: the three-node tree of the end-to-end scenario, and
  records with the depths 0, 1, 2, 2, 1, 2, 3, 3 of the reconstruction scenario.
\<close>

definition exampleText :: string where
  "exampleText =
     joinLines [''H1'', ''H2'', ''0;100;a;b;c;d;e;f;g;h;i'', ''1;40;x;y;z;0'', ''1;60;x;y;z;1'']"

definition exampleText8 :: string where
  "exampleText8 =
     joinLines [''H1'', ''H2'',
       ''0;100;a;b;c;d;e;f;g;h;i'', ''1;50;a;b;c;d;e;f;g;h;i'', ''2;20;x;y;z;0'', ''2;30;x;y;z;1'',
       ''1;50;a;b;c;d;e;f;g;h;i'', ''2;50;a;b;c;d;e;f;g;h;i'', ''3;10;x;y;z;2'', ''3;40;x;y;z;3'']"

text \<open>
  Texts that are refused or that start below the root level: records with the depths
  0, 1, 3; a record with seven fields; three sibling records under the root; and a first
  record of depth 5 followed by a record of depth 3.
\<close>

definition jumpText :: string where
  "jumpText = joinLines [''H1'', ''H2'', ''0;100;a;b;c;d;e;f;g;h;i'', ''1;50;a;b;c;d;e;f;g;h;i'', ''3;20;x;y;z;0'']"

definition sevenFieldsText :: string where
  "sevenFieldsText = joinLines [''H1'', ''H2'', ''0;100;a;b;c;d;e;f;g;h;i'', ''1;40;x;y;z;0;q'']"

definition threeSiblingsText :: string where
  "threeSiblingsText =
     joinLines [''H1'', ''H2'', ''0;100;a;b;c;d;e;f;g;h;i'', ''1;40;x;y;z;0'', ''1;30;x;y;z;1'', ''1;30;x;y;z;2'']"

definition deepRootText :: string where
  "deepRootText = joinLines [''H1'', ''H2'', ''5;100;a;b;c;d;e;f;g;h;i'', ''3;40;x;y;z;0'']"

subsection \<open>Rejection of malformed input\<close>

lemma parse_Structural_iff:
  "(parseStatisticsContent ctor text = Inl StructuralError) =
      (\<exists>ns k hh stack. parseLines ctor (records text) = Inr ns \<and> 0 < k \<and> k < List.length ns \<and>
         iterate (map fresh ns, [0]) [1..<k] = Inr (hh, stack) \<and>
         depth (ns ! (k - 1)) + 1 < depth (ns ! k))"
proof (cases "parseLines ctor (records text)")
  case (Inl e)
  have "e = FormatError"
    using parseLines_cases[of "records text" ctor] Inl by auto
  with Inl have "parseStatisticsContent ctor text = Inl FormatError"
    by (simp add: parseStatisticsContent_def)
  with Inl show ?thesis by simp
next
  case (Inr ns)
  have p: "parseStatisticsContent ctor text = buildTree ns"
    by (simp add: parseStatisticsContent_def Inr)
  show ?thesis
  proof
    assume "parseStatisticsContent ctor text = Inl StructuralError"
    with p have "buildTree ns = Inl StructuralError" by simp
    from this[unfolded buildTree_Structural_iff] obtain k hh stack
      where "0 < k" "k < List.length ns" "iterate (map fresh ns, [0]) [1..<k] = Inr (hh, stack)"
        "depth (ns ! (k - 1)) + 1 < depth (ns ! k)"
      by blast
    then show "\<exists>ns k hh stack. parseLines ctor (records text) = Inr ns \<and> 0 < k \<and> k < List.length ns \<and>
         iterate (map fresh ns, [0]) [1..<k] = Inr (hh, stack) \<and>
         depth (ns ! (k - 1)) + 1 < depth (ns ! k)"
      apply -
      apply (rule exI[of _ ns])
      apply (rule exI[of _ k])
      apply (rule exI[of _ hh])
      apply (rule exI[of _ stack])
      apply (simp only: Inr simp_thms)
      done
  next
    assume "\<exists>ns k hh stack. parseLines ctor (records text) = Inr ns \<and> 0 < k \<and> k < List.length ns \<and>
         iterate (map fresh ns, [0]) [1..<k] = Inr (hh, stack) \<and>
         depth (ns ! (k - 1)) + 1 < depth (ns ! k)"
    then obtain ns' k hh stack where n': "parseLines ctor (records text) = Inr ns'"
      and k: "0 < k" "k < List.length ns'"
        "iterate (map fresh ns', [0]) [1..<k] = Inr (hh, stack)"
        "depth (ns' ! (k - 1)) + 1 < depth (ns' ! k)"
      by blast
    from n' Inr have e: "ns' = ns" by simp
    have "\<exists>k hh stack. 0 < k \<and> k < List.length ns \<and>
        iterate (map fresh ns, [0]) [1..<k] = Inr (hh, stack) \<and>
        depth (ns ! (k - 1)) + 1 < depth (ns ! k)"
      apply (rule exI[of _ k])
      apply (rule exI[of _ hh])
      apply (rule exI[of _ stack])
      using k[unfolded e] apply (simp only: simp_thms)
      done
    then have "buildTree ns = Inl StructuralError"
      unfolding buildTree_Structural_iff .
    with p show "parseStatisticsContent ctor text = Inl StructuralError" by simp
  qed
qed

lemma reached_top:
  assumes "parseLines ctor (records text) = Inr ns \<and> 0 < k \<and> k < List.length ns \<and>
      iterate (map fresh ns, [0]) [1..<k] = Inr (hh, stack)"
  shows "map val hh = ns \<and> top stack = Some (k - 1) \<and>
      (step (hh, stack) k = Inl StructuralError) =
        (depth (val (hh ! (k - 1))) + 1 < depth (val (hh ! k)))"
proof -
  from assms have k: "0 < k"
    and i: "iterate (map fresh ns, [0]) [1..<k] = Inr (hh, stack)" by simp_all
  from iterate_reached[OF k i] have v: "map val hh = ns" and ne: "stack \<noteq> []"
    and l: "last stack = k - 1" by simp_all
  from ne l have t: "top stack = Some (k - 1)" by (simp add: top_def)
  have s: "(step (hh, stack) k = Inl StructuralError) =
        (depth (val (hh ! (k - 1))) + 1 < depth (val (hh ! k)))"
    unfolding step_Structural l using ne by simp
  from v t s show ?thesis by (intro conjI)
qed

lemma no_jump:
  assumes a: "parseLines ctor (records text) = Inr ns \<and>
      (\<forall>k. 0 < k \<and> k < List.length ns \<longrightarrow> depth (ns ! k) \<le> depth (ns ! (k - 1)) + 1)"
  shows "parseStatisticsContent ctor text \<noteq> Inl StructuralError"
proof
  assume "parseStatisticsContent ctor text = Inl StructuralError"
  from this[unfolded parse_Structural_iff] obtain ns' k where n': "parseLines ctor (records text) = Inr ns'"
    and k: "0 < k" "k < List.length ns'" "depth (ns' ! (k - 1)) + 1 < depth (ns' ! k)"
    by blast
  from n' a have "ns' = ns" by simp
  with k a have "depth (ns ! k) \<le> depth (ns ! (k - 1)) + 1" "depth (ns ! (k - 1)) + 1 < depth (ns ! k)"
    by simp_all
  then show False by simp
qed

text \<open>
  C4. The parser fails with FormatError exactly when some record line (after the two
  header lines) has neither 11 nor 6 fields separated by semicolons. It fails with
  StructuralError exactly when all lines have an accepted field count and its loop
  reaches a record \<open>k\<close> whose depth exceeds by more than one the depth of the record
  before it. That record is the stack top then, and the pass for record \<open>k\<close> fails with
  StructuralError exactly when the depth of record \<open>k\<close> exceeds the depth of the stack
  top by more than one. A depth sequence without such a jump never fails with
  StructuralError.
\<close>

theorem parser_errors:
  "(parseStatisticsContent ctor text = Inl FormatError) = (\<not> list_all okLine (records text)) \<and>
   (parseStatisticsContent ctor text = Inl StructuralError) =
      (\<exists>ns k hh stack. parseLines ctor (records text) = Inr ns \<and> 0 < k \<and> k < List.length ns \<and>
         iterate (map fresh ns, [0]) [1..<k] = Inr (hh, stack) \<and>
         depth (ns ! (k - 1)) + 1 < depth (ns ! k)) \<and>
   (parseLines ctor (records text) = Inr ns \<and> 0 < k \<and> k < List.length ns \<and>
    iterate (map fresh ns, [0]) [1..<k] = Inr (hh, stack) \<longrightarrow>
      map val hh = ns \<and> top stack = Some (k - 1) \<and>
      (step (hh, stack) k = Inl StructuralError) =
        (depth (val (hh ! (k - 1))) + 1 < depth (val (hh ! k)))) \<and>
   (parseLines ctor (records text) = Inr ns \<and>
    (\<forall>k. 0 < k \<and> k < List.length ns \<longrightarrow> depth (ns ! k) \<le> depth (ns ! (k - 1)) + 1) \<longrightarrow>
      parseStatisticsContent ctor text \<noteq> Inl StructuralError)"
  apply (rule conjI)
   apply (rule parse_FormatError)
  apply (rule conjI)
   apply (rule parse_Structural_iff)
  apply (rule conjI)
   apply (rule impI)
   apply (erule reached_top)
  apply (rule impI)
  apply (erule no_jump)
  done

text \<open>
  Witness for C4: a record with seven fields gives FormatError; the depths 0, 1, 3 give
  StructuralError, with the jump at the third record; the eight-record example has no
  jump and does not fail with StructuralError.
\<close>

lemma jump_free8:
  "map depth ns = [0, 1, 2, 2, 1, 2, 3, 3::nat] \<Longrightarrow> 0 < k \<and> k < List.length ns \<Longrightarrow>
     depth (ns ! k) \<le> depth (ns ! (k - 1)) + 1"
proof -
  assume d: "map depth ns = [0, 1, 2, 2, 1, 2, 3, 3::nat]" and k: "0 < k \<and> k < List.length ns"
  from arg_cong[OF d, of List.length] have l: "List.length ns = 8" by simp
  have n: "depth (ns ! j) = [0, 1, 2, 2, 1, 2, 3, 3::nat] ! j" if "j < 8" for j
  proof -
    from that l have "map depth ns ! j = depth (ns ! j)" by simp
    with d show ?thesis by simp
  qed
  from k l have "k = 1 \<or> k = 2 \<or> k = 3 \<or> k = 4 \<or> k = 5 \<or> k = 6 \<or> k = 7"
    by arith
  then consider "k = 1" | "k = 2" | "k = 3" | "k = 4" | "k = 5" | "k = 6" | "k = 7"
    by blast
  then show ?thesis
    using n[of k] n[of "k - 1"] by cases simp_all
qed

theorem parser_errors_witness:
  "parseStatisticsContent readFields sevenFieldsText = Inl FormatError \<and>
   \<not> list_all okLine (records sevenFieldsText) \<and>
   parseStatisticsContent readFields jumpText = Inl StructuralError \<and>
   (\<exists>ns k hh stack. parseLines readFields (records jumpText) = Inr ns \<and> map depth ns = [0, 1, 3] \<and>
      0 < k \<and> k < List.length ns \<and> iterate (map fresh ns, [0]) [1..<k] = Inr (hh, stack) \<and>
      map val hh = ns \<and> top stack = Some (k - 1) \<and>
      step (hh, stack) k = Inl StructuralError \<and>
      depth (ns ! (k - 1)) + 1 < depth (ns ! k)) \<and>
   (\<exists>ns. parseLines readFields (records exampleText8) = Inr ns \<and>
      map depth ns = [0, 1, 2, 2, 1, 2, 3, 3] \<and>
      parseStatisticsContent readFields exampleText8 \<noteq> Inl StructuralError)"
proof -
  have f: "parseStatisticsContent readFields sevenFieldsText = Inl FormatError"
    by code_simp
  have s: "parseStatisticsContent readFields jumpText = Inl StructuralError"
    by code_simp
  have d: "map_sum id (map depth) (parseLines readFields (records jumpText)) = Inr [0, 1, 3]"
    by code_simp
  have d8: "map_sum id (map depth) (parseLines readFields (records exampleText8)) =
      Inr [0, 1, 2, 2, 1, 2, 3, 3]"
    by code_simp
  note T1 = parser_errors[THEN conjunct1]
  note T2 = parser_errors[THEN conjunct2, THEN conjunct1]
  note T3 = parser_errors[THEN conjunct2, THEN conjunct2, THEN conjunct1, rule_format]
  note T4 = parser_errors[THEN conjunct2, THEN conjunct2, THEN conjunct2, rule_format]
  from f have nf: "\<not> list_all okLine (records sevenFieldsText)"
    unfolding T1 .
  from s[unfolded T2] obtain ns k hh stack
    where n: "parseLines readFields (records jumpText) = Inr ns"
      and k: "0 < k" "k < List.length ns"
      and i: "iterate (map fresh ns, [0]) [1..<k] = Inr (hh, stack)"
      and j: "depth (ns ! (k - 1)) + 1 < depth (ns ! k)"
    by blast
  have "parseLines readFields (records jumpText) = Inr ns \<and> 0 < k \<and> k < List.length ns \<and>
    iterate (map fresh ns, [0]) [1..<k] = Inr (hh, stack)"
    using n k i by simp
  from T3[OF this]
  have r: "map val hh = ns" "top stack = Some (k - 1)"
    "(step (hh, stack) k = Inl StructuralError) =
        (depth (val (hh ! (k - 1))) + 1 < depth (val (hh ! k)))"
    by simp_all
  have lh: "List.length hh = List.length ns"
    using r(1) by (metis length_map)
  have v: "val (hh ! q) = ns ! q" if "q < List.length ns" for q
    using r(1) lh that by (metis nth_map)
  from r(3) j k v[of k] v[of "k - 1"] have st: "step (hh, stack) k = Inl StructuralError"
    by simp
  from d n have dn: "map depth ns = [0, 1, 3]" by simp
  have A: "\<exists>ns k hh stack. parseLines readFields (records jumpText) = Inr ns \<and> map depth ns = [0, 1, 3] \<and>
      0 < k \<and> k < List.length ns \<and> iterate (map fresh ns, [0]) [1..<k] = Inr (hh, stack) \<and>
      map val hh = ns \<and> top stack = Some (k - 1) \<and>
      step (hh, stack) k = Inl StructuralError \<and>
      depth (ns ! (k - 1)) + 1 < depth (ns ! k)"
    apply (rule exI[of _ ns])
    apply (rule exI[of _ k])
    apply (rule exI[of _ hh])
    apply (rule exI[of _ stack])
    using n dn k i r(1,2) st j apply simp
    done
  from d8 obtain ns8 where n8: "parseLines readFields (records exampleText8) = Inr ns8"
    and dn8: "map depth ns8 = [0, 1, 2, 2, 1, 2, 3, 3]"
    by (cases "parseLines readFields (records exampleText8)") auto
  have "parseLines readFields (records exampleText8) = Inr ns8 \<and>
    (\<forall>k. 0 < k \<and> k < List.length ns8 \<longrightarrow> depth (ns8 ! k) \<le> depth (ns8 ! (k - 1)) + 1)"
    using n8 jump_free8[OF dn8] by simp
  from T4[OF this]
  have "parseStatisticsContent readFields exampleText8 \<noteq> Inl StructuralError" .
  note ok8 = this
  have B: "\<exists>ns. parseLines readFields (records exampleText8) = Inr ns \<and>
      map depth ns = [0, 1, 2, 2, 1, 2, 3, 3] \<and>
      parseStatisticsContent readFields exampleText8 \<noteq> Inl StructuralError"
    apply (rule exI[of _ ns8])
    using n8 dn8 ok8 apply simp
    done
  show ?thesis
    by (intro conjI f nf s A B)
qed

subsection \<open>Arity of parsed trees\<close>

text \<open>
  C8. In every arena the parser returns, each node has at most two children and each
  LeafNode has none. The loop of \<open>parseStatisticsContent\<close> has no check of its own:
  the bound is the one \<open>add\<close> enforces.
\<close>

theorem parsed_arity:
  "parseStatisticsContent ctor text = Inr h \<Longrightarrow> list_all arityOK h"
  using parseLines_cases[of "records text" ctor]
  by (auto simp: parseStatisticsContent_def dest: buildTree_arity)

text \<open>
  Witness for C8: the eight-record example has nodes with 2, 1 and 0 children; three
  sibling records under the root are refused by \<open>add\<close>.
\<close>

theorem parsed_arity_witness:
  "(\<exists>h. parseStatisticsContent readFields exampleText8 = Inr h \<and> list_all arityOK h \<and>
      map (\<lambda>c. List.length (children_refs c)) h = [2, 2, 0, 0, 1, 2, 0, 0]) \<and>
   parseStatisticsContent readFields threeSiblingsText = Inl ChildRejected"
proof -
  have e: "map_sum id (map (\<lambda>c. List.length (children_refs c)))
      (parseStatisticsContent readFields exampleText8) = Inr [2, 2, 0, 0, 1, 2, 0, 0]"
    by code_simp
  then obtain h where h: "parseStatisticsContent readFields exampleText8 = Inr h"
    by (cases "parseStatisticsContent readFields exampleText8") auto
  with e have c: "map (\<lambda>c. List.length (children_refs c)) h = [2, 2, 0, 0, 1, 2, 0, 0]"
    by simp
  have r: "parseStatisticsContent readFields threeSiblingsText = Inl ChildRejected"
    by code_simp
  have "\<exists>h. parseStatisticsContent readFields exampleText8 = Inr h \<and> list_all arityOK h \<and>
      map (\<lambda>c. List.length (children_refs c)) h = [2, 2, 0, 0, 1, 2, 0, 0]"
    apply (rule exI[of _ h])
    using parsed_arity[OF h] h c apply simp
    done
  then show ?thesis
    by (intro conjI r)
qed

subsection \<open>Stack reconstruction\<close>

lemma parse_reference:
  assumes p: "parseStatisticsContent ctor text = Inr h" and ne: "h \<noteq> []"
    and d0: "depth (val (h ! 0)) = 0"
  shows "map parent_ref h = map (refParent (depths h)) [0..<List.length h]"
    and "map children_refs h = map (refChildren (depths h)) [0..<List.length h]"
    and "\<forall>i < List.length h. 0 < i \<longrightarrow> refParent (depths h) i \<noteq> None"
proof -
  from p obtain ns where b: "buildTree ns = Inr h"
    using parseLines_cases[of "records text" ctor]
    by (auto simp: parseStatisticsContent_def)
  have nne: "ns \<noteq> []"
    using b ne by (auto simp: buildTree_def)
  obtain stack where it: "iterate (map fresh ns, [0]) [1..<List.length ns] = Inr (h, stack)"
    using b nne by (cases "iterate (map fresh ns, [0]) [1..<List.length ns]") (auto simp: buildTree_def)
  have v0: "map val h = ns"
  proof -
    have "\<And>st st' is. iterate st is = Inr st' \<Longrightarrow> map val (fst st') = map val (fst st)"
    proof -
      fix st st' "is" show "iterate st is = Inr st' \<Longrightarrow> map val (fst st') = map val (fst st)"
      proof (induction "is" arbitrary: st)
        case Nil then show ?case by simp
      next
        case (Cons i "is")
        from Cons.prems obtain st1 where s: "step st i = Inr st1" and i: "iterate st1 is = Inr st'"
          by (auto split: sum.splits)
        from step_props(1)[of "fst st" "snd st" i "fst st1" "snd st1"] s
        have "map val (fst st1) = map val (fst st)" by simp
        with Cons.IH[OF i] show ?case by simp
      qed
    qed
    from this[OF it] show ?thesis by (simp add: fresh_def comp_def)
  qed
  then have "depth (ns ! 0) = 0"
    using d0 ne by (metis length_greater_0_conv nth_map)
  note R = buildTree_reference(2)[OF b nne this]
  have "map depth ns = map depth (map val h)"
    using v0 by simp
  then have dh: "map depth ns = depths h"
    by (simp add: depths_def comp_def)
  have lh: "List.length ns = List.length h"
    using v0 by (metis length_map)
  have r: "\<forall>i < List.length h. parent_ref (h ! i) = refParent (depths h) i \<and>
           children_refs (h ! i) = refChildren (depths h) i"
    using R unfolding dh lh .
  show "\<forall>i < List.length h. 0 < i \<longrightarrow> refParent (depths h) i \<noteq> None"
    using buildTree_reference(3)[OF b nne \<open>depth (ns ! 0) = 0\<close>] unfolding dh lh .
  show "map parent_ref h = map (refParent (depths h)) [0..<List.length h]"
  proof (rule nth_equalityI)
    fix i assume "i < List.length (map parent_ref h)"
    then show "map parent_ref h ! i = map (refParent (depths h)) [0..<List.length h] ! i"
      using r by simp
  qed simp
  show "map children_refs h = map (refChildren (depths h)) [0..<List.length h]"
  proof (rule nth_equalityI)
    fix i assume "i < List.length (map children_refs h)"
    then show "map children_refs h ! i = map (refChildren (depths h)) [0..<List.length h] ! i"
      using r by simp
  qed simp
qed

lemma step_rule:
  assumes "step (hh, stack) i = Inr (hh', stack')"
  shows "\<exists>latest adj p. top stack = Some latest \<and>
     depth (val (hh ! i)) \<le> depth (val (hh ! latest)) + 1 \<and>
     adj = (if depth (val (hh ! i)) = depth (val (hh ! latest)) + 1 then stack
            else if depth (val (hh ! i)) = depth (val (hh ! latest)) then butlast stack
            else take (depth (val (hh ! i))) stack) \<and>
     top adj = Some p \<and> add hh p i = Inr hh' \<and> stack' = adj @ [i]"
  using assms
  by (auto simp: step_def adjust_def split: sum.splits option.splits if_splits)

lemma add_links:
  assumes "add hh p i = Inr hh'" "p < List.length hh" "i < List.length hh" "p \<noteq> i"
  shows "children_refs (hh' ! p) = children_refs (hh ! p) @ [i]" "parent_ref (hh' ! i) = Some p"
  using assms by (auto simp: add_def split: if_splits)

lemma stack_shape:
  assumes it: "iterate (map fresh ns, [0]) [1..<m] = Inr (hh, stack)"
    and ne: "ns \<noteq> []" and d0: "depth (ns ! 0) = 0" and m: "0 < m" "m < List.length ns"
    and adj: "adjust hh stack m = Inr adj"
  shows "map Some stack = map (lastAt (map depth ns) m) [0..<depth (ns ! (m - 1)) + 1]"
    and "adj = take (depth (ns ! m)) stack" and "List.length adj = depth (ns ! m)"
proof -
  have inv: "parserInv ns m (hh, stack)"
    using iterate_inv[OF it parserInv_init[OF ne d0]] m by (simp add: Suc_leI)
  then have vals: "map val hh = ns"
    and len: "List.length stack = depth (ns ! (m - 1)) + 1"
    and lst: "last stack = m - 1"
    and anc: "\<And>k. k < List.length stack \<Longrightarrow> lastAt (map depth ns) m k = Some (stack ! k)"
    by (auto simp: parserInv_def)
  have lh: "List.length hh = List.length ns"
    using vals by (metis length_map)
  have v: "\<And>i. i < List.length ns \<Longrightarrow> val (hh ! i) = ns ! i"
    using vals lh by (metis nth_map)
  have "map Some stack = map (lastAt (map depth ns) m) [0..<List.length stack]"
  proof (rule nth_equalityI)
    fix k assume "k < List.length (map Some stack)"
    then show "map Some stack ! k = map (lastAt (map depth ns) m) [0..<List.length stack] ! k"
      using anc[of k] by simp
  qed simp
  then show "map Some stack = map (lastAt (map depth ns) m) [0..<depth (ns ! (m - 1)) + 1]"
    unfolding len .
  have "List.length stack = depth (val (hh ! last stack)) + 1"
    using len lst m v[of "m - 1"] by simp
  from adjust_take[OF adj this] v[OF m(2)]
  show "adj = take (depth (ns ! m)) stack" "List.length adj = depth (ns ! m)"
    by simp_all
qed

lemma upt_split3:
  "0 < m \<Longrightarrow> m < n \<Longrightarrow> [1..<n] = [1..<m] @ m # [Suc m..<n]"
proof -
  assume m: "0 < m" "m < n"
  have "[1..<m + (n - m)] = [1..<m] @ [m..<m + (n - m)]"
    using m(1) by (intro upt_add_eq_append) simp
  moreover have "[m..<n] = m # [Suc m..<n]"
    using m(2) by (rule upt_conv_Cons)
  ultimately show ?thesis using m(2) by simp
qed

lemma refParent_less: "refParent ds i = Some p \<Longrightarrow> p < i"
  by (auto simp: refParent_def split: if_splits dest: lastAt_less)

lemma add_parent: "add hh p m = Inr hh' \<Longrightarrow> m < List.length hh \<Longrightarrow> parent_ref (hh' ! m) = Some p"
  by (auto simp: add_def split: if_splits)

lemma pass_rule:
  assumes it: "iterate (map fresh ns, [0]) [1..<List.length ns] = Inr (h, stackF)"
    and ne: "ns \<noteq> []" and d0: "depth (ns ! 0) = 0" and m: "0 < m" "m < List.length ns"
  shows "\<exists>hh stack hh' adj p.
            iterate (map fresh ns, [0]) [1..<m] = Inr (hh, stack) \<and>
            iterate (map fresh ns, [0]) [1..<Suc m] = Inr (hh', adj @ [m]) \<and>
            map val hh = ns \<and>
            top stack = Some (m - 1) \<and>
            map Some stack = map (lastAt (map depth ns) m) [0..<depth (ns ! (m - 1)) + 1] \<and>
            depth (ns ! m) \<le> depth (ns ! (m - 1)) + 1 \<and>
            adj = (if depth (ns ! m) = depth (ns ! (m - 1)) + 1 then stack
                   else if depth (ns ! m) = depth (ns ! (m - 1)) then butlast stack
                   else take (depth (ns ! m)) stack) \<and>
            List.length adj = depth (ns ! m) \<and>
            top adj = Some p \<and> p < m \<and>
            add hh p m = Inr hh' \<and>
            children_refs (hh' ! p) = children_refs (hh ! p) @ [m] \<and>
            parent_ref (hh' ! m) = Some p \<and>
            parent_ref (h ! m) = Some p \<and> refParent (map depth ns) m = Some p"
proof -
  let ?ds = "map depth ns"
  note u = upt_split3[OF m]
  from it[unfolded u iterate_append] obtain hh stack
    where i1: "iterate (map fresh ns, [0]) [1..<m] = Inr (hh, stack)"
    by (cases "iterate (map fresh ns, [0]) [1..<m]") auto
  from it[unfolded u iterate_append] i1 obtain hh' stack'
    where s: "step (hh, stack) m = Inr (hh', stack')"
    by (cases "step (hh, stack) m") auto
  from s obtain adj p where adj: "adjust hh stack m = Inr adj" and tp: "top adj = Some p"
    and ad: "add hh p m = Inr hh'" and s': "stack' = adj @ [m]"
    by (auto simp: step_def split: sum.splits option.splits)
  have i2: "iterate (map fresh ns, [0]) [1..<Suc m] = Inr (hh', adj @ [m])"
  proof -
    have "[1..<Suc m] = [1..<m] @ [m]" using m(1) by simp
    then show ?thesis using i1 s s' by (simp add: iterate_append)
  qed
  note r = reached_jump(1,2)[OF m i1]
  have lh: "List.length hh = List.length ns"
    using r(1) by (metis length_map)
  have n: "val (hh ! j) = ns ! j" if "j < List.length ns" for j
    using r(1) lh that by (metis nth_map)
  from r(2) have lst: "stack \<noteq> []" "last stack = m - 1"
    by (auto simp: top_def split: if_splits)
  from adj lst n[OF m(2)] n[of "m - 1"] m
  have rule: "depth (ns ! m) \<le> depth (ns ! (m - 1)) + 1"
    "adj = (if depth (ns ! m) = depth (ns ! (m - 1)) + 1 then stack
            else if depth (ns ! m) = depth (ns ! (m - 1)) then butlast stack
            else take (depth (ns ! m)) stack)"
    by (auto simp: adjust_def top_def split: if_splits)
  note sh = stack_shape[OF i1 ne d0 m adj]
  have inv: "parserInv ns (Suc m) (hh', adj @ [m])"
    using iterate_inv[OF i2 parserInv_init[OF ne d0]] m by simp
  then have "parent_ref (hh' ! m) = refParent ?ds m"
    using m by (auto simp: parserInv_def)
  moreover have pm: "parent_ref (hh' ! m) = Some p"
    using add_parent[OF ad] m lh by simp
  ultimately have rp: "refParent ?ds m = Some p" by simp
  then have plt: "p < m" by (rule refParent_less)
  have ch: "children_refs (hh' ! p) = children_refs (hh ! p) @ [m]"
    using add_links(1)[OF ad] plt m lh by simp
  have "parserInv ns (List.length ns) (h, stackF)"
    using iterate_inv[OF it parserInv_init[OF ne d0]] ne by (simp add: Suc_leI)
  then have "parent_ref (h ! m) = refParent ?ds m"
    using m by (auto simp: parserInv_def)
  with rp have fin: "parent_ref (h ! m) = Some p" by simp
  show ?thesis
    apply (rule exI[of _ hh])
    apply (rule exI[of _ stack])
    apply (rule exI[of _ hh'])
    apply (rule exI[of _ adj])
    apply (rule exI[of _ p])
    apply (intro conjI)
    using i1 i2 r sh(1) rule sh(3) tp plt ad ch pm fin rp apply simp_all
    done
qed

text \<open>
  C1 (as amended). For every accepted text whose first record has depth 0: the arena
  returned holds the records of the text, one object per record line, in order, and is
  the result of the loop over the records 1, 2, ... Every pass \<open>m\<close> of that loop follows
  the stack rule: the stack top is record \<open>m - 1\<close> and the stack holds the last record
  of each level up to the depth of that record; a record one level below the top leaves
  the stack as it is, a record of the same depth pops the top, a record of smaller depth
  \<open>d\<close> cuts the stack to \<open>stack.slice(0, d)\<close>, and in every case the stack then has as
  many entries as the depth of record \<open>m\<close>; the node is added as the next child of the
  new top \<open>p\<close>, which becomes and stays its parent, and is pushed. So the parents and
  children of the result are those of the reference reconstruction of the records'
  depths.
\<close>

theorem stack_reconstruction:
  assumes "parseStatisticsContent ctor text = Inr h" and "h \<noteq> []" and "depth (val (h ! 0)) = 0"
  shows "\<exists>ns stackF.
      parseLines ctor (records text) = Inr ns \<and> List.length ns = List.length (records text) \<and>
      map val h = ns \<and>
      iterate (map fresh ns, [0]) [1..<List.length ns] = Inr (h, stackF) \<and>
      (\<forall>m. 0 < m \<and> m < List.length ns \<longrightarrow>
         (\<exists>hh stack hh' adj p.
            iterate (map fresh ns, [0]) [1..<m] = Inr (hh, stack) \<and>
            iterate (map fresh ns, [0]) [1..<Suc m] = Inr (hh', adj @ [m]) \<and>
            map val hh = ns \<and>
            top stack = Some (m - 1) \<and>
            map Some stack = map (lastAt (map depth ns) m) [0..<depth (ns ! (m - 1)) + 1] \<and>
            depth (ns ! m) \<le> depth (ns ! (m - 1)) + 1 \<and>
            adj = (if depth (ns ! m) = depth (ns ! (m - 1)) + 1 then stack
                   else if depth (ns ! m) = depth (ns ! (m - 1)) then butlast stack
                   else take (depth (ns ! m)) stack) \<and>
            List.length adj = depth (ns ! m) \<and>
            top adj = Some p \<and> p < m \<and>
            add hh p m = Inr hh' \<and>
            children_refs (hh' ! p) = children_refs (hh ! p) @ [m] \<and>
            parent_ref (hh' ! m) = Some p \<and>
            parent_ref (h ! m) = Some p \<and> refParent (map depth ns) m = Some p)) \<and>
      map parent_ref h = map (refParent (map depth ns)) [0..<List.length ns] \<and>
      map children_refs h = map (refChildren (map depth ns)) [0..<List.length ns]"
proof -
  from assms(1) parseLines_cases[of "records text" ctor] obtain ns
    where pl: "parseLines ctor (records text) = Inr ns"
      and ln: "List.length ns = List.length (records text)"
      and b: "buildTree ns = Inr h"
    by (auto simp: parseStatisticsContent_def)
  from b assms(2) have nne: "ns \<noteq> []"
    by (auto simp: buildTree_def)
  with b obtain stackF where it: "iterate (map fresh ns, [0]) [1..<List.length ns] = Inr (h, stackF)"
    by (cases "iterate (map fresh ns, [0]) [1..<List.length ns]") (auto simp: buildTree_def)
  from nne have n0: "0 < List.length ns" by simp
  from iterate_reached[OF n0 it] have v: "map val h = ns" by simp
  have lh: "List.length h = List.length ns"
    using v by (metis length_map)
  have "val (h ! 0) = ns ! 0"
    using v lh n0 by (metis nth_map)
  with assms(3) have d0: "depth (ns ! 0) = 0" by simp
  note R = buildTree_reference(2)[OF b nne d0]
  have P: "map parent_ref h = map (refParent (map depth ns)) [0..<List.length ns]"
  proof (rule nth_equalityI)
    fix i assume "i < List.length (map parent_ref h)"
    then show "map parent_ref h ! i = map (refParent (map depth ns)) [0..<List.length ns] ! i"
      using R lh by simp
  qed (simp add: lh)
  have C: "map children_refs h = map (refChildren (map depth ns)) [0..<List.length ns]"
  proof (rule nth_equalityI)
    fix i assume "i < List.length (map children_refs h)"
    then show "map children_refs h ! i = map (refChildren (map depth ns)) [0..<List.length ns] ! i"
      using R lh by simp
  qed (simp add: lh)
  have M: "\<forall>m. 0 < m \<and> m < List.length ns \<longrightarrow>
         (\<exists>hh stack hh' adj p.
            iterate (map fresh ns, [0]) [1..<m] = Inr (hh, stack) \<and>
            iterate (map fresh ns, [0]) [1..<Suc m] = Inr (hh', adj @ [m]) \<and>
            map val hh = ns \<and>
            top stack = Some (m - 1) \<and>
            map Some stack = map (lastAt (map depth ns) m) [0..<depth (ns ! (m - 1)) + 1] \<and>
            depth (ns ! m) \<le> depth (ns ! (m - 1)) + 1 \<and>
            adj = (if depth (ns ! m) = depth (ns ! (m - 1)) + 1 then stack
                   else if depth (ns ! m) = depth (ns ! (m - 1)) then butlast stack
                   else take (depth (ns ! m)) stack) \<and>
            List.length adj = depth (ns ! m) \<and>
            top adj = Some p \<and> p < m \<and>
            add hh p m = Inr hh' \<and>
            children_refs (hh' ! p) = children_refs (hh ! p) @ [m] \<and>
            parent_ref (hh' ! m) = Some p \<and>
            parent_ref (h ! m) = Some p \<and> refParent (map depth ns) m = Some p)"
    apply (intro allI impI)
    apply (erule conjE)
    apply (rule pass_rule[OF it nne d0])
     apply assumption+
    done
  show ?thesis
    apply (rule exI[of _ ns])
    apply (rule exI[of _ stackF])
    apply (intro conjI)
          apply (rule pl)
         apply (rule ln)
        apply (rule v)
       apply (rule it)
      apply (rule M)
     apply (rule P)
    apply (rule C)
    done
qed

text \<open>
  Witness for C1: the eight-record example. Record 4, of depth 1, meets the stack
  [0, 1, 3], which is cut to [0]; the record becomes the second child of the root. The
  parsed text has the parents and children of the reference reconstruction.
\<close>

theorem stack_reconstruction_witness:
  "\<exists>h ns stackF hh hh'.
     parseStatisticsContent readFields exampleText8 = Inr h \<and> h \<noteq> [] \<and> depth (val (h ! 0)) = 0 \<and>
     parseLines readFields (records exampleText8) = Inr ns \<and> map val h = ns \<and>
     map depth ns = [0, 1, 2, 2, 1, 2, 3, 3] \<and>
     iterate (map fresh ns, [0]) [1..<List.length ns] = Inr (h, stackF) \<and>
     iterate (map fresh ns, [0]) [1..<4] = Inr (hh, [0, 1, 3]) \<and>
     iterate (map fresh ns, [0]) [1..<5] = Inr (hh', [0, 4]) \<and>
     add hh 0 4 = Inr hh' \<and>
     children_refs (hh' ! 0) = children_refs (hh ! 0) @ [4] \<and>
     parent_ref (hh' ! 4) = Some 0 \<and> parent_ref (h ! 4) = Some 0 \<and>
     map parent_ref h = [None, Some 0, Some 1, Some 1, Some 0, Some 4, Some 5, Some 5] \<and>
     map children_refs h = [[1, 4], [2, 3], [], [], [5], [6, 7], [], []]"
proof -
  have e: "map_sum id (\<lambda>h. (depths h, map parent_ref h, map children_refs h))
      (parseStatisticsContent readFields exampleText8) =
      Inr ([0, 1, 2, 2, 1, 2, 3, 3],
           [None, Some 0, Some 1, Some 1, Some 0, Some 4, Some 5, Some 5],
           [[1, 4], [2, 3], [], [], [5], [6, 7], [], []])"
    by code_simp
  then obtain h where p: "parseStatisticsContent readFields exampleText8 = Inr h"
    and r: "depths h = [0, 1, 2, 2, 1, 2, 3, 3]"
      "map parent_ref h = [None, Some 0, Some 1, Some 1, Some 0, Some 4, Some 5, Some 5]"
      "map children_refs h = [[1, 4], [2, 3], [], [], [5], [6, 7], [], []]"
    by (cases "parseStatisticsContent readFields exampleText8") auto
  from r(1) have hne: "h \<noteq> []" and h0: "depth (val (h ! 0)) = 0"
    by (auto simp: depths_def)
  from stack_reconstruction[OF p hne h0] obtain ns stackF
    where pl: "parseLines readFields (records exampleText8) = Inr ns"
      and v: "map val h = ns"
      and it: "iterate (map fresh ns, [0]) [1..<List.length ns] = Inr (h, stackF)"
      and M: "\<forall>m. 0 < m \<and> m < List.length ns \<longrightarrow>
         (\<exists>hh stack hh' adj p.
            iterate (map fresh ns, [0]) [1..<m] = Inr (hh, stack) \<and>
            iterate (map fresh ns, [0]) [1..<Suc m] = Inr (hh', adj @ [m]) \<and>
            map val hh = ns \<and>
            top stack = Some (m - 1) \<and>
            map Some stack = map (lastAt (map depth ns) m) [0..<depth (ns ! (m - 1)) + 1] \<and>
            depth (ns ! m) \<le> depth (ns ! (m - 1)) + 1 \<and>
            adj = (if depth (ns ! m) = depth (ns ! (m - 1)) + 1 then stack
                   else if depth (ns ! m) = depth (ns ! (m - 1)) then butlast stack
                   else take (depth (ns ! m)) stack) \<and>
            List.length adj = depth (ns ! m) \<and>
            top adj = Some p \<and> p < m \<and>
            add hh p m = Inr hh' \<and>
            children_refs (hh' ! p) = children_refs (hh ! p) @ [m] \<and>
            parent_ref (hh' ! m) = Some p \<and>
            parent_ref (h ! m) = Some p \<and> refParent (map depth ns) m = Some p)"
    by blast
  have dn: "map depth ns = [0, 1, 2, 2, 1, 2, 3, 3]"
    using r(1) v by (auto simp: depths_def)
  from arg_cong[OF dn, of List.length] have l8: "List.length ns = 8" by simp
  have n: "depth (ns ! j) = [0, 1, 2, 2, 1, 2, 3, 3::nat] ! j" if "j < 8" for j
  proof -
    from that l8 have "map depth ns ! j = depth (ns ! j)" by simp
    with dn show ?thesis by simp
  qed
  have d3: "depth (ns ! 3) = 2" and d4: "depth (ns ! 4) = 1"
    using n[of 3] n[of 4] by simp_all
  from M[rule_format, of 4] l8 obtain hh stack hh' adj p
    where i1: "iterate (map fresh ns, [0]) [1..<4] = Inr (hh, stack)"
      and i2: "iterate (map fresh ns, [0]) [1..<Suc 4] = Inr (hh', adj @ [4])"
      and st: "map Some stack = map (lastAt (map depth ns) 4) [0..<depth (ns ! (4 - 1)) + 1]"
      and ad: "adj = (if depth (ns ! 4) = depth (ns ! (4 - 1)) + 1 then stack
                   else if depth (ns ! 4) = depth (ns ! (4 - 1)) then butlast stack
                   else take (depth (ns ! 4)) stack)"
      and tp: "top adj = Some p"
      and a: "add hh p 4 = Inr hh'"
      and c: "children_refs (hh' ! p) = children_refs (hh ! p) @ [4]"
      and pr: "parent_ref (hh' ! 4) = Some p" "parent_ref (h ! 4) = Some p"
    by auto
  have L: "map (lastAt [0, 1, 2, 2, 1, 2, 3, 3] 4) [0..<2 + 1] = map Some [0, 1, 3]"
    by code_simp
  have e43: "(4::nat) - 1 = 3" by simp
  from st have "map Some stack = map (lastAt [0, 1, 2, 2, 1, 2, 3, 3] 4) [0..<2 + 1]"
    unfolding dn e43 d3 .
  then have "map Some stack = map Some [0, 1, 3]"
    unfolding L .
  then have s3: "stack = [0, 1, 3]"
    by (simp only: inj_map_eq_map[OF inj_Some])
  from ad[unfolded e43 d3 d4 s3] have a0: "adj = [0]"
    by simp
  with tp have p0: "p = 0" by (simp add: top_def)
  have i2': "iterate (map fresh ns, [0]) [1..<5] = Inr (hh', [0, 4])"
    using i2 a0 by simp
  show ?thesis
    apply (rule exI[of _ h])
    apply (rule exI[of _ ns])
    apply (rule exI[of _ stackF])
    apply (rule exI[of _ hh])
    apply (rule exI[of _ hh'])
    using p hne h0 pl v dn it i1[unfolded s3] i2' a[unfolded p0] c[unfolded p0] pr[unfolded p0] r(2,3)
    apply simp
    done
qed

text \<open>
  C1 as stated fails for an accepted text whose first record is not at depth 0: after a
  root of depth 5, a record of depth 3 finds the stack [root], \<open>slice(0, 3)\<close> leaves it
  at length 1, and the record becomes a child of the root, which the reference
  reconstruction does not give it as parent.
\<close>

theorem stack_reconstruction_counterexample:
  "map_sum id (map (\<lambda>c. (depth (val c), children_refs c, parent_ref c)))
     (parseStatisticsContent readFields deepRootText) = Inr [(5, [1], None), (3, [], Some 0)] \<and>
   map_sum id (\<lambda>ns. adjust (map fresh ns) [0] 1) (parseLines readFields (records deepRootText)) =
     Inr (Inr [0]) \<and>
   List.length [0::nat] \<noteq> 3 \<and>
   refParent [5, 3] 1 = None"
  by code_simp

section \<open>Forest assembler (createForest)\<close>

text \<open>
  \<open>Number.parseFloat\<close> is the engine's: \<open>pf\<close> stands for it. It never throws; a
  token that is no number gives the value \<open>NaN\<close>. The base node of a tree is the
  object at address 0 of its arena, \<open>undefined\<close> when the arena is empty; an out-of-bag
  error beyond the list is \<open>undefined\<close> (\<open>None\<close>).
\<close>

record rawData =
  forestFileContent :: string
  treeFileContents :: "string list"

record 'n forestTree =
  oobError :: "'n option"
  baseNodeArena :: "cell list"

record 'n forest =
  error :: 'n
  totalSamples :: nat
  correlationMatrix :: "'n list list"
  trees :: "'n forestTree list"

definition parseCorrelationMatrix :: "(string \<Rightarrow> 'n) \<Rightarrow> string \<Rightarrow> 'n list list" where
  "parseCorrelationMatrix pf text =
     map (\<lambda>line. map pf (split '','' line))
       (split ('';'' @ [CHR 0x0A]) (filter (\<lambda>c. c \<noteq> CHR ''['' \<and> c \<noteq> CHR '']'') text))"

fun parseTrees ::
  "(kind \<Rightarrow> string list \<Rightarrow> node) \<Rightarrow> 'n list \<Rightarrow> nat \<Rightarrow> string list \<Rightarrow> error + 'n forestTree list" where
  "parseTrees ctor treeOobErrors idx [] = Inr []"
| "parseTrees ctor treeOobErrors idx (treeFileContent # rest) =
     (case parseStatisticsContent ctor treeFileContent of
        Inl e \<Rightarrow> Inl e
      | Inr arena \<Rightarrow>
          (case parseTrees ctor treeOobErrors (idx + 1) rest of
             Inl e \<Rightarrow> Inl e
           | Inr ts \<Rightarrow>
               Inr (\<lparr>oobError = elemAt treeOobErrors idx, baseNodeArena = arena\<rparr> # ts)))"

definition createForest ::
  "(string \<Rightarrow> 'n) \<Rightarrow> (kind \<Rightarrow> string list \<Rightarrow> node) \<Rightarrow> rawData \<Rightarrow> error + 'n forest" where
  "createForest pf ctor raw =
     (let forestDataParts = split [CHR 0x0A, CHR 0x0A] (forestFileContent raw) in
      case elemAt forestDataParts 0 of
        None \<Rightarrow> Inl TypeError
      | Some part0 \<Rightarrow>
          (case elemAt forestDataParts 1 of
             None \<Rightarrow> Inl TypeError
           | Some part1 \<Rightarrow>
               (let treeOobErrors = map pf (split [CHR 0x0A] part1);
                    err = pf (case elemAt forestDataParts 2 of None \<Rightarrow> ''undefined'' | Some part2 \<Rightarrow> part2)
                in case parseTrees ctor treeOobErrors 0 (treeFileContents raw) of
                     Inl e \<Rightarrow> Inl e
                   | Inr ts \<Rightarrow>
                       (case elemAt ts 0 of
                          None \<Rightarrow> Inl TypeError
                        | Some t0 \<Rightarrow>
                            (case elemAt (baseNodeArena t0) 0 of
                               None \<Rightarrow> Inl TypeError
                             | Some b \<Rightarrow>
                                 Inr \<lparr>error = err, totalSamples = samples (val b),
                                      correlationMatrix = parseCorrelationMatrix pf part0,
                                      trees = ts\<rparr>)))))"

text \<open>
  A number reader for the examples: it agrees with \<open>Number.parseFloat\<close> on strings of
  decimal digits and on strings without any digit, where the value is \<open>NaN\<close> (\<open>None\<close>).
\<close>

definition digitsOnly :: "string \<Rightarrow> nat option" where
  "digitsOnly s =
     (if s \<noteq> [] \<and> list_all (\<lambda>c. c \<in> set ''0123456789'') s then Some (decimal s) else None)"

definition exampleForestText :: string where
  "exampleForestText = joinLines [''[1]'', '''', ''abc'', '''', ''0'']"

subsection \<open>Outcome of createForest\<close>

lemma parseTrees_error:
  "parseTrees ctor oobs i cs = Inl e \<Longrightarrow> \<exists>c \<in> set cs. parseStatisticsContent ctor c = Inl e"
  by (induction cs arbitrary: i) (auto split: sum.splits)

lemma parseTrees_length:
  "parseTrees ctor oobs i cs = Inr ts \<Longrightarrow> List.length ts = List.length cs"
  by (induction cs arbitrary: i ts) (auto split: sum.splits)

lemma parseTrees_first:
  "parseTrees ctor oobs i (c # cs) = Inr ts \<Longrightarrow>
     \<exists>a rest. ts = \<lparr>oobError = elemAt oobs i, baseNodeArena = a\<rparr> # rest \<and>
        parseStatisticsContent ctor c = Inr a"
  by (auto split: sum.splits)

lemma parseTrees_ok:
  "list_all (\<lambda>c. \<exists>a. parseStatisticsContent ctor c = Inr a) cs \<Longrightarrow>
     \<exists>ts. parseTrees ctor oobs i cs = Inr ts"
proof (induction cs arbitrary: i)
  case Nil
  show ?case by simp
next
  case (Cons c cs)
  from Cons.prems obtain a where a: "parseStatisticsContent ctor c = Inr a"
    and rest: "list_all (\<lambda>c. \<exists>a. parseStatisticsContent ctor c = Inr a) cs"
    by auto
  from Cons.IH[OF rest, of "i + 1"] obtain ts where "parseTrees ctor oobs (i + 1) cs = Inr ts"
    by blast
  with a show ?case by simp
qed

lemma createForest_error:
  assumes "createForest pf ctor raw = Inl e"
  shows "e = TypeError \<or> (\<exists>c \<in> set (treeFileContents raw). parseStatisticsContent ctor c = Inl e)"
  using assms
  by (auto simp: createForest_def Let_def split: option.splits sum.splits dest: parseTrees_error)

lemma createForest_empty:
  assumes "treeFileContents raw = []"
  shows "createForest pf ctor raw = Inl TypeError"
  using assms
  by (auto simp: createForest_def Let_def elemAt_def split: option.splits)

lemma createForest_result:
  assumes "createForest pf ctor raw = Inr f"
  shows "\<exists>t0 b rest. trees f = t0 # rest \<and> elemAt (baseNodeArena t0) 0 = Some b \<and>
           totalSamples f = samples (val b)"
    and "List.length (trees f) = List.length (treeFileContents raw)"
proof -
  from assms have "\<exists>oobs ts t0 b. parseTrees ctor oobs 0 (treeFileContents raw) = Inr ts \<and>
      elemAt ts 0 = Some t0 \<and> elemAt (baseNodeArena t0) 0 = Some b \<and> trees f = ts \<and>
      totalSamples f = samples (val b)"
    by (fastforce simp: createForest_def Let_def split: option.splits sum.splits)
  then obtain ts t0 b where ts: "elemAt ts 0 = Some t0" "elemAt (baseNodeArena t0) 0 = Some b"
    and f: "trees f = ts" "totalSamples f = samples (val b)"
    and p: "\<exists>oobs. parseTrees ctor oobs 0 (treeFileContents raw) = Inr ts"
    by blast
  from ts(1) obtain rest where "ts = t0 # rest"
    by (cases ts) (auto simp: elemAt_def split: if_splits)
  with ts f show "\<exists>t0 b rest. trees f = t0 # rest \<and> elemAt (baseNodeArena t0) 0 = Some b \<and>
           totalSamples f = samples (val b)"
    by blast
  from p f show "List.length (trees f) = List.length (treeFileContents raw)"
    by (auto dest: parseTrees_length)
qed

lemma createForest_success:
  assumes p1: "elemAt (split [CHR 0x0A, CHR 0x0A] (forestFileContent raw)) 1 \<noteq> None"
    and ne: "treeFileContents raw \<noteq> []"
    and ok: "list_all (\<lambda>c. \<exists>a. parseStatisticsContent ctor c = Inr a) (treeFileContents raw)"
    and b: "\<exists>a. parseStatisticsContent ctor (hd (treeFileContents raw)) = Inr a \<and> a \<noteq> []"
  shows "\<exists>f. createForest pf ctor raw = Inr f"
proof -
  let ?parts = "split [CHR 0x0A, CHR 0x0A] (forestFileContent raw)"
  from p1 obtain part1 where part1: "elemAt ?parts 1 = Some part1" by auto
  then have "elemAt ?parts 0 = Some (?parts ! 0)"
    by (auto simp: elemAt_def split: if_splits)
  then obtain part0 where part0: "elemAt ?parts 0 = Some part0" ..
  let ?oobs = "map pf (split [CHR 0x0A] part1)"
  from parseTrees_ok[OF ok] obtain ts where ts: "parseTrees ctor ?oobs 0 (treeFileContents raw) = Inr ts"
    by blast
  from ne obtain c cs where cs: "treeFileContents raw = c # cs" by (cases "treeFileContents raw") auto
  from parseTrees_first[OF ts[unfolded cs]] obtain a rest
    where t0: "ts = \<lparr>oobError = elemAt ?oobs 0, baseNodeArena = a\<rparr> # rest"
      and a: "parseStatisticsContent ctor c = Inr a"
    by blast
  from b a cs have "a \<noteq> []" by simp
  then obtain b0 where b0: "elemAt a 0 = Some b0"
    by (auto simp: elemAt_def)
  have e0: "elemAt ts 0 = Some \<lparr>oobError = elemAt ?oobs 0, baseNodeArena = a\<rparr>"
    by (simp add: t0 elemAt_def)
  have "createForest pf ctor raw =
      Inr \<lparr>error = pf (case elemAt ?parts 2 of None \<Rightarrow> ''undefined'' | Some part2 \<Rightarrow> part2),
           totalSamples = samples (val b0),
           correlationMatrix = parseCorrelationMatrix pf part0, trees = ts\<rparr>"
    unfolding createForest_def Let_def part0 part1 option.case ts sum.case e0
    by (simp add: b0)
  then show ?thesis ..
qed

text \<open>
  C3 (as amended). \<open>createForest\<close> checks neither the numeric tokens nor the number of
  out-of-bag errors. It fails only with the engine's TypeError (the forest text has no
  second block, no tree is given, or the first tree has no record) or with the error of
  \<open>parseStatisticsContent\<close> on one of the tree texts; with zero trees it fails with
  the TypeError of reading \<open>trees[0].baseNode\<close>. When the forest text has a second
  block, every tree text parses and the first has a record, it succeeds. When it
  succeeds there is one tree per text and totalSamples is \<open>trees[0].baseNode.samples\<close>.
\<close>

theorem createForest_outcome:
  "(createForest pf ctor raw = Inl e \<longrightarrow>
      e = TypeError \<or> (\<exists>c \<in> set (treeFileContents raw). parseStatisticsContent ctor c = Inl e)) \<and>
   (treeFileContents raw = [] \<longrightarrow> createForest pf ctor raw = Inl TypeError) \<and>
   (createForest pf ctor raw = Inr f \<longrightarrow>
      (\<exists>t0 b rest. trees f = t0 # rest \<and> elemAt (baseNodeArena t0) 0 = Some b \<and>
         totalSamples f = samples (val b)) \<and>
      List.length (trees f) = List.length (treeFileContents raw)) \<and>
   (elemAt (split [CHR 0x0A, CHR 0x0A] (forestFileContent raw)) 1 \<noteq> None \<and>
    treeFileContents raw \<noteq> [] \<and>
    list_all (\<lambda>c. \<exists>a. parseStatisticsContent ctor c = Inr a) (treeFileContents raw) \<and>
    (\<exists>a. parseStatisticsContent ctor (hd (treeFileContents raw)) = Inr a \<and> a \<noteq> []) \<longrightarrow>
      (\<exists>f. createForest pf ctor raw = Inr f))"
  using createForest_error[of pf ctor raw e] createForest_empty[of raw pf ctor]
    createForest_result[of pf ctor raw f] createForest_success[of raw ctor pf]
  by blast

text \<open>
  A forest text with the matrix [1], the single out-of-bag token \<open>abc\<close> and the error
  0, with two tree texts.
\<close>

definition exampleRaw :: rawData where
  "exampleRaw = \<lparr>forestFileContent = exampleForestText, treeFileContents = [exampleText, exampleText8]\<rparr>"

text \<open>
  Witness for C3: no tree gives TypeError; a tree text with a seven-field record gives
  that text's FormatError; the example succeeds with totalSamples 100.
\<close>

theorem createForest_outcome_witness:
  "createForest digitsOnly readFields (exampleRaw\<lparr>treeFileContents := []\<rparr>) = Inl TypeError \<and>
   createForest digitsOnly readFields (exampleRaw\<lparr>treeFileContents := [sevenFieldsText]\<rparr>) =
     Inl FormatError \<and>
   parseStatisticsContent readFields sevenFieldsText = Inl FormatError \<and>
   (\<exists>f. createForest digitsOnly readFields exampleRaw = Inr f \<and> totalSamples f = 100 \<and>
      List.length (trees f) = 2 \<and>
      (\<exists>t0 b rest. trees f = t0 # rest \<and> elemAt (baseNodeArena t0) 0 = Some b \<and>
         totalSamples f = samples (val b)))"
proof -
  note T = createForest_outcome[of digitsOnly readFields]
  have "treeFileContents (exampleRaw\<lparr>treeFileContents := []\<rparr>) = []"
    by simp
  with T[of "exampleRaw\<lparr>treeFileContents := []\<rparr>"]
  have A: "createForest digitsOnly readFields (exampleRaw\<lparr>treeFileContents := []\<rparr>) = Inl TypeError"
    by blast
  have B: "createForest digitsOnly readFields (exampleRaw\<lparr>treeFileContents := [sevenFieldsText]\<rparr>) =
     Inl FormatError"
    by code_simp
  with T[of "exampleRaw\<lparr>treeFileContents := [sevenFieldsText]\<rparr>" FormatError]
  have C: "parseStatisticsContent readFields sevenFieldsText = Inl FormatError"
    by auto
  have p1: "elemAt (split [CHR 0x0A, CHR 0x0A] (forestFileContent exampleRaw)) 1 \<noteq> None"
    by code_simp
  have p2: "treeFileContents exampleRaw \<noteq> []"
    by (simp add: exampleRaw_def)
  have e1: "map_sum id List.length (parseStatisticsContent readFields exampleText) = Inr 3"
    and e2: "map_sum id List.length (parseStatisticsContent readFields exampleText8) = Inr 8"
    by code_simp+
  from e1 obtain a1 where a1: "parseStatisticsContent readFields exampleText = Inr a1" "a1 \<noteq> []"
    by (cases "parseStatisticsContent readFields exampleText") force+
  from e2 obtain a2 where a2: "parseStatisticsContent readFields exampleText8 = Inr a2"
    by (cases "parseStatisticsContent readFields exampleText8") auto
  have p3: "list_all (\<lambda>c. \<exists>a. parseStatisticsContent readFields c = Inr a) (treeFileContents exampleRaw)"
    using a1 a2 by (simp add: exampleRaw_def)
  have p4: "\<exists>a. parseStatisticsContent readFields (hd (treeFileContents exampleRaw)) = Inr a \<and> a \<noteq> []"
    using a1 by (simp add: exampleRaw_def)
  from T[of exampleRaw] p1 p2 p3 p4 obtain f where f: "createForest digitsOnly readFields exampleRaw = Inr f"
    by blast
  from T[of exampleRaw _ f] f
  have r: "\<exists>t0 b rest. trees f = t0 # rest \<and> elemAt (baseNodeArena t0) 0 = Some b \<and>
         totalSamples f = samples (val b)"
    and l: "List.length (trees f) = List.length (treeFileContents exampleRaw)"
    by blast+
  have "map_sum id totalSamples (createForest digitsOnly readFields exampleRaw) = Inr 100"
    by code_simp
  with f have ts: "totalSamples f = 100" by simp
  have D: "\<exists>f. createForest digitsOnly readFields exampleRaw = Inr f \<and> totalSamples f = 100 \<and>
      List.length (trees f) = 2 \<and>
      (\<exists>t0 b rest. trees f = t0 # rest \<and> elemAt (baseNodeArena t0) 0 = Some b \<and>
         totalSamples f = samples (val b))"
    apply (rule exI[of _ f])
    using f ts l r apply (simp add: exampleRaw_def)
    done
  show ?thesis
    by (intro conjI A B C D)
qed

text \<open>
  C3 as stated fails on the example: the out-of-bag block holds one token, which is no
  number, for two tree texts, and \<open>createForest\<close> returns a forest whose first tree has
  the out-of-bag error \<open>NaN\<close> and whose second has none.
\<close>

theorem createForest_outcome_counterexample:
  "digitsOnly ''abc'' = None \<and>
   split [CHR 0x0A, CHR 0x0A] (forestFileContent exampleRaw) = [''[1]'', ''abc'', ''0''] \<and>
   List.length (split [CHR 0x0A] ''abc'') = 1 \<and>
   List.length (treeFileContents exampleRaw) = 2 \<and>
   map_sum id (\<lambda>f. (error f, totalSamples f, correlationMatrix f, map oobError (trees f)))
     (createForest digitsOnly readFields exampleRaw) =
     Inr (Some 0, 100, [[Some 1]], [Some None, None])"
  by code_simp

section \<open>Path highlighter (markPathElements)\<close>

text \<open>
  The highlighter works on the node objects of a parsed tree, in their arena. A callback
  that assigns a field of the node it is given is a function on node values, applied to
  the object at an address. A recursion over object references need not end, so
  \<open>walkAndApply\<close> and \<open>walkUpAndApply\<close> return \<open>None\<close> when
  they do not return. \<open>walkAndApply\<close> on \<open>undefined\<close> calls the callback on it,
  which is a TypeError.
\<close>

definition applyAt :: "(node \<Rightarrow> node) \<Rightarrow> cell list \<Rightarrow> nat \<Rightarrow> cell list" where
  "applyAt fn h i = h[i := (h ! i)\<lparr>val := fn (val (h ! i))\<rparr>]"

partial_function (option) walkAndApply ::
  "(node \<Rightarrow> node) \<Rightarrow> cell list \<Rightarrow> nat option \<Rightarrow> (error + cell list) option" where
  "walkAndApply fn h r =
     (case r of
        None \<Rightarrow> Some (Inl TypeError)
      | Some i \<Rightarrow>
          if List.length h \<le> i then Some (Inl TypeError)
          else if kind (val (applyAt fn h i ! i)) = InternalNode then
            Option.bind (walkAndApply fn (applyAt fn h i) (elemAt (children_refs (applyAt fn h i ! i)) 0))
              (\<lambda>r1. case r1 of
                       Inl e \<Rightarrow> Some (Inl e)
                     | Inr h2 \<Rightarrow> walkAndApply fn h2 (elemAt (children_refs (h2 ! i)) 1))
          else Some (Inr (applyAt fn h i)))"

partial_function (option) walkUpAndApply ::
  "(node \<Rightarrow> node) \<Rightarrow> cell list \<Rightarrow> nat \<Rightarrow> cell list option" where
  "walkUpAndApply fn h i =
     (case parent_ref (applyAt fn h i ! i) of
        None \<Rightarrow> Some (applyAt fn h i)
      | Some p \<Rightarrow> walkUpAndApply fn (applyAt fn h i) p)"

text \<open>
  \<open>this.getLeafNodes\<close>: the class \<open>TreeView\<close>, whose whole body is in the source,
  defines no \<open>getLeafNodes\<close>, and \<open>React.Component\<close> has none either. The property is
  \<open>undefined\<close>, and calling it is a TypeError. \<open>this_getLeafNodes\<close> is the value of
  the property: the function it holds, if any.
\<close>

definition this_getLeafNodes :: "(cell list \<Rightarrow> nat option \<Rightarrow> nat list) option" where
  "this_getLeafNodes = None"

text \<open>The loop over the selected leaves, with \<open>walkUpAndApply\<close> setting the flag.\<close>

fun walkUpAll :: "cell list \<Rightarrow> nat list \<Rightarrow> cell list option" where
  "walkUpAll h [] = Some h"
| "walkUpAll h (l # ls) =
     Option.bind (walkUpAndApply (\<lambda>n. n\<lparr>selectedPathElement := True\<rparr>) h l) (\<lambda>h'. walkUpAll h' ls)"

definition markPathElements :: "nat list \<Rightarrow> cell list \<Rightarrow> nat option \<Rightarrow> (error + cell list) option" where
  "markPathElements leafIds h tree =
     Option.bind (walkAndApply (\<lambda>n. n\<lparr>selectedPathElement := False\<rparr>) h tree)
       (\<lambda>r. case r of
          Inl e \<Rightarrow> Some (Inl e)
        | Inr h1 \<Rightarrow>
            (case this_getLeafNodes of
               None \<Rightarrow> Some (Inl TypeError)
             | Some getLeafNodes \<Rightarrow>
                 map_option Inr
                   (walkUpAll h1
                      (filter (\<lambda>l. leafId (val (h1 ! l)) \<in> set leafIds) (getLeafNodes h1 tree)))))"

section \<open>Properties of the path highlighter\<close>

text \<open>
  \<open>chain h i\<close> is the path from the node \<open>i\<close> up to the root, along the parent
  references (it stops at a parent that is not an earlier record). \<open>treeArena\<close> says
  that an arena is a tree as the parser builds it: the first object is the root, every
  other object has an earlier object as parent and is among that parent's children,
  children are later objects that name the node as parent, and the arity is at most
  two. \<open>links\<close> is the shape of an arena: kinds and references.
  \<open>shortIn h i\<close> says that the subtree of \<open>i\<close> has an InternalNode with fewer than
  two children.
\<close>

function chain :: "cell list \<Rightarrow> nat \<Rightarrow> nat list" where
  "chain h i = i # (case parent_ref (h ! i) of None \<Rightarrow> [] | Some p \<Rightarrow> if p < i then chain h p else [])"
  by pat_completeness auto
termination
  by (relation "measure snd") auto

declare chain.simps [simp del]

definition treeArena :: "cell list \<Rightarrow> bool" where
  "treeArena h =
     (h \<noteq> [] \<and> parent_ref (h ! 0) = None \<and>
      (\<forall>i < List.length h. 0 < i \<longrightarrow>
          (\<exists>p. parent_ref (h ! i) = Some p \<and> p < i \<and> i \<in> set (children_refs (h ! p)))) \<and>
      (\<forall>i < List.length h. \<forall>c \<in> set (children_refs (h ! i)).
          i < c \<and> c < List.length h \<and> parent_ref (h ! c) = Some i) \<and>
      list_all arityOK h)"

definition links :: "cell list \<Rightarrow> (kind \<times> nat list \<times> nat option) list" where
  "links h = map (\<lambda>c. (kind (val c), children_refs c, parent_ref c)) h"

definition updWhere :: "(nat \<Rightarrow> bool) \<Rightarrow> (node \<Rightarrow> node) \<Rightarrow> cell list \<Rightarrow> cell list" where
  "updWhere P fn h =
     map (\<lambda>j. if P j then (h ! j)\<lparr>val := fn (val (h ! j))\<rparr> else h ! j) [0..<List.length h]"

definition shortIn :: "cell list \<Rightarrow> nat \<Rightarrow> bool" where
  "shortIn h i =
     (\<exists>j < List.length h. i \<in> set (chain h j) \<and> kind (val (h ! j)) = InternalNode \<and>
        List.length (children_refs (h ! j)) < 2)"

lemma chain_self: "i \<in> set (chain h i)"
  by (subst chain.simps) simp

lemma chain_root: "parent_ref (h ! j) = None \<Longrightarrow> chain h j = [j]"
  by (subst chain.simps) simp

lemma chain_step: "parent_ref (h ! j) = Some q \<Longrightarrow> q < j \<Longrightarrow> chain h j = j # chain h q"
  by (subst chain.simps) simp

lemma chain_stuck: "parent_ref (h ! j) = Some q \<Longrightarrow> \<not> q < j \<Longrightarrow> chain h j = [j]"
  by (subst chain.simps) simp

lemma chain_cases:
  obtains "chain h j = [j]" | q where "parent_ref (h ! j) = Some q" "q < j" "chain h j = j # chain h q"
proof (cases "parent_ref (h ! j)")
  case None
  then show ?thesis using that(1) chain_root by blast
next
  case (Some q)
  show ?thesis
  proof (cases "q < j")
    case True
    with Some chain_step[OF Some True] that(2) show ?thesis by blast
  next
    case False
    with Some chain_stuck[OF Some False] that(1) show ?thesis by blast
  qed
qed

lemma chain_le: "c \<in> set (chain h j) \<Longrightarrow> c \<le> j"
proof (induction j arbitrary: c rule: less_induct)
  case (less j)
  show ?case
  proof (cases rule: chain_cases[of h j])
    case 1
    with less.prems show ?thesis by simp
  next
    case (2 q)
    with less.prems have d: "c = j \<or> c \<in> set (chain h q)" by simp
    show ?thesis
    proof (cases "c = j")
      case True
      then show ?thesis by simp
    next
      case False
      with d have "c \<in> set (chain h q)" by simp
      then have "c \<le> q" by (rule less.IH[OF 2(2)])
      with 2(2) show ?thesis by simp
    qed
  qed
qed

lemma links_length: "links h' = links h \<Longrightarrow> List.length h' = List.length h"
proof -
  assume "links h' = links h"
  then have "List.length (links h') = List.length (links h)" by simp
  then show ?thesis by (simp add: links_def)
qed

lemma links_nth:
  assumes "links h' = links h" "i < List.length h"
  shows "kind (val (h' ! i)) = kind (val (h ! i))" "children_refs (h' ! i) = children_refs (h ! i)"
    "parent_ref (h' ! i) = parent_ref (h ! i)"
proof -
  note l = links_length[OF assms(1)]
  from assms(1) have "links h' ! i = links h ! i" by simp
  with assms(2) l show "kind (val (h' ! i)) = kind (val (h ! i))"
    "children_refs (h' ! i) = children_refs (h ! i)" "parent_ref (h' ! i) = parent_ref (h ! i)"
    by (simp_all add: links_def)
qed

lemma links_chain:
  assumes l: "links h' = links h"
  shows "i < List.length h \<Longrightarrow> chain h' i = chain h i"
proof (induction i rule: less_induct)
  case (less i)
  have p: "parent_ref (h' ! i) = parent_ref (h ! i)"
    using links_nth(3)[OF l less.prems] .
  show ?case
  proof (cases "parent_ref (h ! i)")
    case None
    with p show ?thesis by (simp add: chain_root)
  next
    case (Some q)
    show ?thesis
    proof (cases "q < i")
      case True
      with less.IH[OF True] less.prems have "chain h' q = chain h q" by simp
      with p Some True show ?thesis by (simp add: chain_step)
    next
      case False
      with p Some show ?thesis by (simp add: chain_stuck)
    qed
  qed
qed

lemma treeArenaD:
  assumes "treeArena h"
  shows "h \<noteq> []" "parent_ref (h ! 0) = None"
    and "\<And>i. i < List.length h \<Longrightarrow> 0 < i \<Longrightarrow>
          \<exists>p. parent_ref (h ! i) = Some p \<and> p < i \<and> i \<in> set (children_refs (h ! p))"
    and "\<And>i c. i < List.length h \<Longrightarrow> c \<in> set (children_refs (h ! i)) \<Longrightarrow>
          i < c \<and> c < List.length h \<and> parent_ref (h ! c) = Some i"
    and "\<And>i. i < List.length h \<Longrightarrow> arityOK (h ! i)"
  using assms unfolding treeArena_def list_all_length by blast+

lemma treeArenaI:
  assumes "h \<noteq> []" "parent_ref (h ! 0) = None"
    and "\<And>i. i < List.length h \<Longrightarrow> 0 < i \<Longrightarrow>
          \<exists>p. parent_ref (h ! i) = Some p \<and> p < i \<and> i \<in> set (children_refs (h ! p))"
    and "\<And>i c. i < List.length h \<Longrightarrow> c \<in> set (children_refs (h ! i)) \<Longrightarrow>
          i < c \<and> c < List.length h \<and> parent_ref (h ! c) = Some i"
    and "\<And>i. i < List.length h \<Longrightarrow> arityOK (h ! i)"
  shows "treeArena h"
  using assms unfolding treeArena_def list_all_length by blast

lemma links_treeArena:
  assumes l: "links h' = links h" and ta: "treeArena h"
  shows "treeArena h'"
proof (rule treeArenaI)
  note n = links_nth[OF l] and len = links_length[OF l]
  note d = treeArenaD[OF ta]
  from d(1) have z: "0 < List.length h" by simp
  show "h' \<noteq> []" using z len by auto
  show "parent_ref (h' ! 0) = None" using n(3)[OF z] d(2) by simp
  show "\<exists>p. parent_ref (h' ! i) = Some p \<and> p < i \<and> i \<in> set (children_refs (h' ! p))"
    if "i < List.length h'" "0 < i" for i
  proof -
    from that len have i: "i < List.length h" by simp
    from d(3)[OF i that(2)] obtain p where p: "parent_ref (h ! i) = Some p" "p < i"
      "i \<in> set (children_refs (h ! p))" by blast
    from p(2) i have pl: "p < List.length h" by simp
    have "parent_ref (h' ! i) = Some p" using n(3)[OF i] p(1) by simp
    moreover have "i \<in> set (children_refs (h' ! p))" using n(2)[OF pl] p(3) by simp
    ultimately show ?thesis using p(2) by blast
  qed
  show "i < c \<and> c < List.length h' \<and> parent_ref (h' ! c) = Some i"
    if "i < List.length h'" "c \<in> set (children_refs (h' ! i))" for i c
  proof -
    from that len have i: "i < List.length h" by simp
    with that(2) n(2)[OF i] have "c \<in> set (children_refs (h ! i))" by simp
    from d(4)[OF i this] have c: "i < c" "c < List.length h" "parent_ref (h ! c) = Some i"
      by simp_all
    with n(3)[OF c(2)] len show ?thesis by simp
  qed
  show "arityOK (h' ! i)" if "i < List.length h'" for i
  proof -
    from that len have i: "i < List.length h" by simp
    from d(5)[OF i] n(1)[OF i] n(2)[OF i] show ?thesis
      by (simp add: arityOK_def)
  qed
qed

lemma length_applyAt [simp]: "List.length (applyAt fn h i) = List.length h"
  by (simp add: applyAt_def)

lemma nth_applyAt:
  "j < List.length h \<Longrightarrow>
     applyAt fn h i ! j = (if j = i then (h ! j)\<lparr>val := fn (val (h ! j))\<rparr> else h ! j)"
  by (simp add: applyAt_def nth_list_update)

lemma length_updWhere [simp]: "List.length (updWhere P fn h) = List.length h"
  by (simp add: updWhere_def)

lemma nth_updWhere:
  "j < List.length h \<Longrightarrow>
     updWhere P fn h ! j = (if P j then (h ! j)\<lparr>val := fn (val (h ! j))\<rparr> else h ! j)"
  by (simp add: updWhere_def)

lemma links_applyAt:
  assumes "\<And>n. kind (fn n) = kind n"
  shows "links (applyAt fn h i) = links h"
  unfolding links_def
proof (rule nth_equalityI)
  show "List.length (map (\<lambda>c. (kind (val c), children_refs c, parent_ref c)) (applyAt fn h i)) =
      List.length (map (\<lambda>c. (kind (val c), children_refs c, parent_ref c)) h)"
    by simp
  fix j assume "j < List.length (map (\<lambda>c. (kind (val c), children_refs c, parent_ref c)) (applyAt fn h i))"
  then have j: "j < List.length h" by simp
  then show "map (\<lambda>c. (kind (val c), children_refs c, parent_ref c)) (applyAt fn h i) ! j =
      map (\<lambda>c. (kind (val c), children_refs c, parent_ref c)) h ! j"
    using assms by (simp add: nth_applyAt)
qed

lemma links_updWhere:
  assumes "\<And>n. kind (fn n) = kind n"
  shows "links (updWhere P fn h) = links h"
  unfolding links_def
proof (rule nth_equalityI)
  show "List.length (map (\<lambda>c. (kind (val c), children_refs c, parent_ref c)) (updWhere P fn h)) =
      List.length (map (\<lambda>c. (kind (val c), children_refs c, parent_ref c)) h)"
    by simp
  fix j assume "j < List.length (map (\<lambda>c. (kind (val c), children_refs c, parent_ref c)) (updWhere P fn h))"
  then have j: "j < List.length h" by simp
  then show "map (\<lambda>c. (kind (val c), children_refs c, parent_ref c)) (updWhere P fn h) ! j =
      map (\<lambda>c. (kind (val c), children_refs c, parent_ref c)) h ! j"
    using assms by (simp add: nth_updWhere)
qed

lemma chain_parent:
  assumes pc: "parent_ref (h ! c) = Some i" "i < c"
  shows "c \<in> set (chain h j) \<Longrightarrow> i \<in> set (chain h j)"
proof (induction j rule: less_induct)
  case (less j)
  show ?case
  proof (cases "c = j")
    case True
    with pc have "chain h j = j # chain h i" by (simp add: chain_step)
    with chain_self[of i h] show ?thesis by simp
  next
    case False
    show ?thesis
    proof (cases rule: chain_cases[of h j])
      case 1
      with less.prems False show ?thesis by simp
    next
      case (2 q)
      with less.prems False have "c \<in> set (chain h q)" by simp
      from less.IH[OF 2(2) this] 2(3) show ?thesis by simp
    qed
  qed
qed

lemma chain_child:
  assumes ta: "treeArena h"
  shows "j < List.length h \<Longrightarrow> i \<in> set (chain h j) \<Longrightarrow> j \<noteq> i \<Longrightarrow>
     \<exists>c \<in> set (children_refs (h ! i)). c \<in> set (chain h j)"
proof (induction j rule: less_induct)
  case (less j)
  show ?case
  proof (cases rule: chain_cases[of h j])
    case 1
    with less.prems show ?thesis by simp
  next
    case (2 q)
    with less.prems have iq: "i \<in> set (chain h q)" by simp
    have j0: "0 < j" using 2(2) by simp
    from treeArenaD(3)[OF ta less.prems(1) j0] 2(1) have jc: "j \<in> set (children_refs (h ! q))"
      by auto
    show ?thesis
    proof (cases "q = i")
      case True
      with jc chain_self[of j h] show ?thesis by blast
    next
      case False
      have "q < List.length h" using 2(2) less.prems(1) by simp
      from less.IH[OF 2(2) this iq False]
      obtain c where "c \<in> set (children_refs (h ! i))" "c \<in> set (chain h q)" by blast
      with 2(3) show ?thesis by auto
    qed
  qed
qed

lemma walk_undefined: "walkAndApply fn h None = Some (Inl TypeError)"
  by (subst walkAndApply.simps) simp

lemma walk_leaf:
  assumes "\<And>n. kind (fn n) = kind n" "i < List.length h" "kind (val (h ! i)) = LeafNode"
  shows "walkAndApply fn h (Some i) = Some (Inr (applyAt fn h i))"
  using assms by (subst walkAndApply.simps) (simp add: nth_applyAt)

lemma walk_internal:
  assumes "\<And>n. kind (fn n) = kind n" "i < List.length h" "kind (val (h ! i)) = InternalNode"
  shows "walkAndApply fn h (Some i) =
     Option.bind (walkAndApply fn (applyAt fn h i) (elemAt (children_refs (h ! i)) 0))
       (\<lambda>r1. case r1 of
                Inl e \<Rightarrow> Some (Inl e)
              | Inr h2 \<Rightarrow> walkAndApply fn h2 (elemAt (children_refs (h2 ! i)) 1))"
  using assms by (subst walkAndApply.simps) (simp add: nth_applyAt)

lemma links_shortIn:
  assumes l: "links h' = links h"
  shows "shortIn h' i = shortIn h i"
proof -
  note n = links_nth[OF l] and len = links_length[OF l] and c = links_chain[OF l]
  show ?thesis
    unfolding shortIn_def len
    using n(1,2) c by (metis (no_types, lifting))
qed

lemma shortIn_self:
  "i < List.length h \<Longrightarrow> kind (val (h ! i)) = InternalNode \<Longrightarrow>
     List.length (children_refs (h ! i)) < 2 \<Longrightarrow> shortIn h i"
  unfolding shortIn_def using chain_self[of i h] by blast

lemma shortIn_child:
  assumes ta: "treeArena h" and i: "i < List.length h" and c: "c \<in> set (children_refs (h ! i))"
    and s: "shortIn h c"
  shows "shortIn h i"
proof -
  from s obtain j where j: "j < List.length h" "c \<in> set (chain h j)"
    "kind (val (h ! j)) = InternalNode" "List.length (children_refs (h ! j)) < 2"
    unfolding shortIn_def by blast
  from treeArenaD(4)[OF ta i c] have "parent_ref (h ! c) = Some i" "i < c" by simp_all
  from chain_parent[OF this j(2)] j show ?thesis
    unfolding shortIn_def by blast
qed

lemma shortIn_cases:
  assumes ta: "treeArena h" and s: "shortIn h i"
  shows "(kind (val (h ! i)) = InternalNode \<and> List.length (children_refs (h ! i)) < 2) \<or>
     (\<exists>c \<in> set (children_refs (h ! i)). shortIn h c)"
proof -
  from s obtain j where j: "j < List.length h" "i \<in> set (chain h j)"
    "kind (val (h ! j)) = InternalNode" "List.length (children_refs (h ! j)) < 2"
    unfolding shortIn_def by blast
  show ?thesis
  proof (cases "j = i")
    case True
    with j show ?thesis by simp
  next
    case False
    from chain_child[OF ta j(1,2) False] obtain c where "c \<in> set (children_refs (h ! i))"
      "c \<in> set (chain h j)" by blast
    with j have "c \<in> set (children_refs (h ! i))" "shortIn h c"
      unfolding shortIn_def by blast+
    then show ?thesis by blast
  qed
qed

lemma subtree_iff:
  assumes ta: "treeArena h" and i: "i < List.length h" and j: "j < List.length h"
  shows "i \<in> set (chain h j) = (j = i \<or> (\<exists>c \<in> set (children_refs (h ! i)). c \<in> set (chain h j)))"
proof
  assume "i \<in> set (chain h j)"
  then show "j = i \<or> (\<exists>c \<in> set (children_refs (h ! i)). c \<in> set (chain h j))"
    using chain_child[OF ta j] by blast
next
  assume r: "j = i \<or> (\<exists>c \<in> set (children_refs (h ! i)). c \<in> set (chain h j))"
  show "i \<in> set (chain h j)"
  proof (cases "j = i")
    case True
    then show ?thesis using chain_self by simp
  next
    case False
    with r obtain c where c: "c \<in> set (children_refs (h ! i))" "c \<in> set (chain h j)" by blast
    from treeArenaD(4)[OF ta i c(1)] have "parent_ref (h ! c) = Some i" "i < c" by simp_all
    from chain_parent[OF this c(2)] show ?thesis .
  qed
qed

lemma upd_idem:
  assumes "\<And>n. fn (fn n) = fn n"
  shows "(c\<lparr>val := fn (val c)\<rparr>)\<lparr>val := fn (val (c\<lparr>val := fn (val c)\<rparr>))\<rparr> = c\<lparr>val := fn (val c)\<rparr>"
  using assms by simp

lemma walk_result:
  assumes kp: "\<And>n. kind (fn n) = kind n" and idem: "\<And>n. fn (fn n) = fn n"
  shows "treeArena h \<Longrightarrow> i < List.length h \<Longrightarrow>
     walkAndApply fn h (Some i) =
       Some (if shortIn h i then Inl TypeError
             else Inr (updWhere (\<lambda>j. i \<in> set (chain h j)) fn h))"
proof (induction "List.length h - i" arbitrary: h i rule: less_induct)
  case less
  note ta = less.prems(1) and i = less.prems(2)
  let ?h1 = "applyAt fn h i"
  let ?cs = "children_refs (h ! i)"
  have l1: "links ?h1 = links h" by (rule links_applyAt[OF kp])
  have ta1: "treeArena ?h1" by (rule links_treeArena[OF l1 ta])
  have ar: "arityOK (h ! i)" by (rule treeArenaD(5)[OF ta i])
  have IH: "walkAndApply fn h' (Some c) =
       Some (if shortIn h c then Inl TypeError
             else Inr (updWhere (\<lambda>j. c \<in> set (chain h j)) fn h'))"
    if c: "c \<in> set ?cs" and l: "links h' = links h" for h' c
  proof -
    from treeArenaD(4)[OF ta i c] have ci: "i < c" "c < List.length h" by simp_all
    have len: "List.length h' = List.length h" by (rule links_length[OF l])
    have "List.length h' - c < List.length h - i" using ci len by simp
    from less.hyps[OF this links_treeArena[OF l ta]] ci len
    have "walkAndApply fn h' (Some c) =
       Some (if shortIn h' c then Inl TypeError
             else Inr (updWhere (\<lambda>j. c \<in> set (chain h' j)) fn h'))"
      by simp
    moreover have "updWhere (\<lambda>j. c \<in> set (chain h' j)) fn h' = updWhere (\<lambda>j. c \<in> set (chain h j)) fn h'"
      unfolding updWhere_def using links_chain[OF l] len by simp
    ultimately show ?thesis by (simp add: links_shortIn[OF l])
  qed
  show ?case
  proof (cases "kind (val (h ! i))")
    case LeafNode
    with ar have cs: "?cs = []" by (simp add: arityOK_def)
    have ns: "\<not> shortIn h i"
      using shortIn_cases[OF ta, of i] LeafNode cs by auto
    have "updWhere (\<lambda>j. i \<in> set (chain h j)) fn h = ?h1"
    proof (rule nth_equalityI)
      fix j assume "j < List.length (updWhere (\<lambda>j. i \<in> set (chain h j)) fn h)"
      then have j: "j < List.length h" by simp
      from subtree_iff[OF ta i j] cs have "i \<in> set (chain h j) = (j = i)" by simp
      with j show "updWhere (\<lambda>j. i \<in> set (chain h j)) fn h ! j = ?h1 ! j"
        by (simp add: nth_updWhere nth_applyAt)
    qed simp
    with ns walk_leaf[OF kp i LeafNode] show ?thesis by simp
  next
    case InternalNode
    note w = walk_internal[OF kp i InternalNode]
    from ar have le2: "List.length ?cs \<le> 2" by (simp add: arityOK_def)
    consider (zero) "?cs = []" | (one) a where "?cs = [a]" | (two) a b where "?cs = [a, b]"
    proof (cases ?cs)
      case Nil
      then show ?thesis using zero by simp
    next
      case (Cons a r)
      show ?thesis
      proof (cases r)
        case Nil
        with Cons one show ?thesis by simp
      next
        case (Cons b r')
        with \<open>?cs = a # r\<close> le2 have "?cs = [a, b]" by simp
        then show ?thesis using two by simp
      qed
    qed
    then show ?thesis
    proof cases
      case zero
      have "shortIn h i" using shortIn_self[OF i InternalNode] zero by simp
      then show ?thesis
        by (simp add: w zero elemAt_def walk_undefined)
    next
      case (one a)
      have s: "shortIn h i" using shortIn_self[OF i InternalNode] one by simp
      have a: "a \<in> set ?cs" using one by simp
      show ?thesis
      proof (cases "shortIn h a")
        case True
        with IH[OF a l1] s show ?thesis
          by (simp add: w one elemAt_def)
      next
        case False
        let ?h2 = "updWhere (\<lambda>j. a \<in> set (chain h j)) fn ?h1"
        have l2: "links ?h2 = links h" using links_updWhere[OF kp, of _ ?h1] l1 by simp
        have "children_refs (?h2 ! i) = [a]" using links_nth(2)[OF l2 i] one by simp
        with False IH[OF a l1] s show ?thesis
          by (simp add: w one elemAt_def walk_undefined)
      qed
    next
      case (two a b)
      have a: "a \<in> set ?cs" and b: "b \<in> set ?cs" using two by simp_all
      show ?thesis
      proof (cases "shortIn h a")
        case True
        then have "shortIn h i" by (rule shortIn_child[OF ta i a])
        with True IH[OF a l1] show ?thesis
          by (simp add: w two elemAt_def)
      next
        case na: False
        let ?h2 = "updWhere (\<lambda>j. a \<in> set (chain h j)) fn ?h1"
        have l2: "links ?h2 = links h" using links_updWhere[OF kp, of _ ?h1] l1 by simp
        have c2: "children_refs (?h2 ! i) = [a, b]" using links_nth(2)[OF l2 i] two by simp
        have step1: "walkAndApply fn h (Some i) = walkAndApply fn ?h2 (Some b)"
          using na IH[OF a l1] by (simp add: w two elemAt_def c2)
        show ?thesis
        proof (cases "shortIn h b")
          case True
          then have "shortIn h i" by (rule shortIn_child[OF ta i b])
          with True IH[OF b l2] step1 show ?thesis by simp
        next
          case nb: False
          let ?h3 = "updWhere (\<lambda>j. b \<in> set (chain h j)) fn ?h2"
          have ns: "\<not> shortIn h i"
            using shortIn_cases[OF ta, of i] two na nb by auto
          have "?h3 = updWhere (\<lambda>j. i \<in> set (chain h j)) fn h"
          proof (rule nth_equalityI)
            fix j assume "j < List.length ?h3"
            then have j: "j < List.length h" by simp
            from subtree_iff[OF ta i j] two
            have si: "i \<in> set (chain h j) = (j = i \<or> a \<in> set (chain h j) \<or> b \<in> set (chain h j))"
              by simp
            from treeArenaD(4)[OF ta i a] treeArenaD(4)[OF ta i b] have gt: "i < a" "i < b"
              by simp_all
            have ni: "a \<notin> set (chain h i)" "b \<notin> set (chain h i)"
              using chain_le[of a h i] chain_le[of b h i] gt by auto
            show "?h3 ! j = updWhere (\<lambda>j. i \<in> set (chain h j)) fn h ! j"
            proof (cases "j = i")
              case True
              with j ni show ?thesis
                by (simp add: nth_updWhere nth_applyAt chain_self)
            next
              case False
              with j si show ?thesis
                by (simp add: nth_updWhere nth_applyAt idem)
            qed
          qed simp
          with ns nb IH[OF b l2] step1 show ?thesis by simp
        qed
      qed
    qed
  qed
qed

lemma chain_reaches_root:
  assumes ta: "treeArena h"
  shows "j < List.length h \<Longrightarrow> 0 \<in> set (chain h j)"
proof (induction j rule: less_induct)
  case (less j)
  show ?case
  proof (cases "j = 0")
    case True
    then show ?thesis using chain_self[of 0 h] by simp
  next
    case False
    then have j0: "0 < j" by simp
    from treeArenaD(3)[OF ta less.prems j0] obtain p where p: "parent_ref (h ! j) = Some p" "p < j"
      by blast
    from less.IH[OF p(2)] p(2) less.prems have "0 \<in> set (chain h p)" by simp
    then show ?thesis by (simp add: chain_step[OF p])
  qed
qed

text \<open>Every InternalNode has two children.\<close>

definition fullArena :: "cell list \<Rightarrow> bool" where
  "fullArena h =
     list_all (\<lambda>c. kind (val c) = InternalNode \<longrightarrow> List.length (children_refs c) = 2) h"

lemma shortIn_root:
  assumes ta: "treeArena h"
  shows "shortIn h 0 =
     list_ex (\<lambda>c. kind (val c) = InternalNode \<and> List.length (children_refs c) < 2) h"
proof -
  have "shortIn h 0 = (\<exists>j < List.length h. kind (val (h ! j)) = InternalNode \<and>
      List.length (children_refs (h ! j)) < 2)"
    unfolding shortIn_def using chain_reaches_root[OF ta] by blast
  then show ?thesis
    by (simp add: list_ex_length)
qed

lemma fullArena_not_short: "treeArena h \<Longrightarrow> fullArena h \<Longrightarrow> \<not> shortIn h 0"
  by (auto simp: shortIn_root fullArena_def list_ex_iff list_all_iff)

lemma mark_error:
  assumes ta: "treeArena h" and s: "shortIn h 0"
  shows "markPathElements leafIds h (Some 0) = Some (Inl TypeError)"
proof -
  from treeArenaD(1)[OF ta] have z: "0 < List.length h" by simp
  have "walkAndApply (\<lambda>n. n\<lparr>selectedPathElement := False\<rparr>) h (Some 0) = Some (Inl TypeError)"
    using walk_result[of "\<lambda>n. n\<lparr>selectedPathElement := False\<rparr>" h 0, OF _ _ ta z] s by simp
  then show ?thesis
    by (simp add: markPathElements_def)
qed

lemma reset_walk:
  assumes ta: "treeArena h" and ns: "\<not> shortIn h 0"
  shows "\<exists>h1. walkAndApply (\<lambda>n. n\<lparr>selectedPathElement := False\<rparr>) h (Some 0) = Some (Inr h1) \<and>
     links h1 = links h \<and> list_all (\<lambda>c. \<not> selectedPathElement (val c)) h1"
proof -
  let ?r = "\<lambda>n. n\<lparr>selectedPathElement := False\<rparr>"
  let ?h1 = "updWhere (\<lambda>j. 0 \<in> set (chain h j)) ?r h"
  from treeArenaD(1)[OF ta] have z: "0 < List.length h" by simp
  have w: "walkAndApply ?r h (Some 0) = Some (Inr ?h1)"
    using walk_result[of ?r h 0, OF _ _ ta z] ns by simp
  have l: "links ?h1 = links h" by (rule links_updWhere) simp
  have f: "list_all (\<lambda>c. \<not> selectedPathElement (val c)) ?h1"
    using chain_reaches_root[OF ta] by (simp add: list_all_length nth_updWhere)
  show ?thesis
    apply (rule exI[of _ ?h1])
    using w l f apply simp
    done
qed

lemma mark_throws:
  assumes ta: "treeArena h"
  shows "markPathElements leafIds h (Some 0) = Some (Inl TypeError)"
proof (cases "shortIn h 0")
  case True
  then show ?thesis by (rule mark_error[OF ta])
next
  case False
  from reset_walk[OF ta False] obtain h1
    where "walkAndApply (\<lambda>n. n\<lparr>selectedPathElement := False\<rparr>) h (Some 0) = Some (Inr h1)"
    by blast
  then show ?thesis
    by (simp add: markPathElements_def this_getLeafNodes_def)
qed

section \<open>Parsed trees in the layout and the highlighter\<close>

text \<open>
  A parsed arena whose first record has depth 0 is a tree: parents and children are the
  ones of the reference reconstruction, and the arity is the one \<open>add\<close> enforces.
\<close>

lemma parse_arityOK:
  "parseStatisticsContent ctor text = Inr h \<Longrightarrow> list_all arityOK h"
  using parseLines_cases[of "records text" ctor]
  by (auto simp: parseStatisticsContent_def dest: buildTree_arity)

lemma parsed_treeArena:
  assumes p: "parseStatisticsContent ctor text = Inr h" and ne: "h \<noteq> []"
    and d0: "depth (val (h ! 0)) = 0"
  shows "treeArena h"
proof (rule treeArenaI)
  note R = parse_reference[OF p ne d0]
  let ?ds = "depths h"
  have ld: "List.length ?ds = List.length h" by (simp add: depths_def)
  have par: "parent_ref (h ! i) = refParent ?ds i" if "i < List.length h" for i
  proof -
    from that have "map parent_ref h ! i = parent_ref (h ! i)" by simp
    moreover from that have "map (refParent ?ds) [0..<List.length h] ! i = refParent ?ds i" by simp
    ultimately show ?thesis using R(1) by simp
  qed
  have chi: "children_refs (h ! i) = refChildren ?ds i" if "i < List.length h" for i
  proof -
    from that have "map children_refs h ! i = children_refs (h ! i)" by simp
    moreover from that have "map (refChildren ?ds) [0..<List.length h] ! i = refChildren ?ds i" by simp
    ultimately show ?thesis using R(2) by simp
  qed
  show "h \<noteq> []" by (rule ne)
  from ne have z: "0 < List.length h" by simp
  show "parent_ref (h ! 0) = None" using par[OF z] by (simp add: refParent_def)
  show "\<exists>p. parent_ref (h ! i) = Some p \<and> p < i \<and> i \<in> set (children_refs (h ! p))"
    if "i < List.length h" "0 < i" for i
  proof -
    from R(3) that obtain q where q: "refParent ?ds i = Some q" by auto
    then have qi: "q < i" by (rule refParent_less)
    with that have ql: "q < List.length h" by simp
    have "i \<in> set (refChildren ?ds q)" using q that(1) ld by (simp add: refChildren_def)
    with par[OF that(1)] q qi chi[OF ql] show ?thesis by simp
  qed
  show "i < c \<and> c < List.length h \<and> parent_ref (h ! c) = Some i"
    if "i < List.length h" "c \<in> set (children_refs (h ! i))" for i c
  proof -
    from that chi[OF that(1)] have c: "refParent ?ds c = Some i" "c < List.length h"
      using ld by (simp_all add: refChildren_def)
    from refParent_less[OF c(1)] par[OF c(2)] c show ?thesis by simp
  qed
  show "arityOK (h ! i)" if "i < List.length h" for i
    using parse_arityOK[OF p] that by (simp add: list_all_length)
qed










text \<open>
  The arena of the three-record example, and a text with records of the depths 0, 1: a
  root with a single leaf as child.
\<close>

definition exampleArena :: "cell list" where
  "exampleArena =
     [\<lparr>val = mkNode InternalNode 0 100 0 [], children_refs = [1, 2], parent_ref = None\<rparr>,
      \<lparr>val = mkNode LeafNode 1 40 0 [], children_refs = [], parent_ref = Some 0\<rparr>,
      \<lparr>val = mkNode LeafNode 1 60 1 [], children_refs = [], parent_ref = Some 0\<rparr>]"












subsection \<open>The path highlighter\<close>

lemma exampleArena_parsed:
  "map_sum id (\<lambda>h. (links h, depth (val (h ! 0))))
     (parseStatisticsContent readFields exampleText) = Inr (links exampleArena, 0)"
  by code_simp

lemma exampleArena_tree: "treeArena exampleArena"
proof -
  from exampleArena_parsed obtain h where p: "parseStatisticsContent readFields exampleText = Inr h"
    and l: "links h = links exampleArena" and d: "depth (val (h ! 0)) = 0"
    by (cases "parseStatisticsContent readFields exampleText") auto
  from links_length[OF l] have "h \<noteq> []" by (auto simp: exampleArena_def)
  from parsed_treeArena[OF p this d] links_treeArena[OF l[symmetric]] show ?thesis by simp
qed

lemma exampleArena_full: "fullArena exampleArena"
  by code_simp

lemmas mark_eval =
  markPathElements_def walkAndApply.simps walkUpAndApply.simps applyAt_def this_getLeafNodes_def
  elemAt_def mkNode_def

text \<open>
  The three-record example, a root with two leaves, marked for the leaf id 1: the reset
  walk returns the arena with every flag false, which is the arena itself, and
  \<open>markPathElements\<close> throws a TypeError.
\<close>

lemma markPathElements_example:
  "walkAndApply (\<lambda>n. n\<lparr>selectedPathElement := False\<rparr>) exampleArena (Some 0) =
     Some (Inr exampleArena) \<and>
   markPathElements [1] exampleArena (Some 0) = Some (Inl TypeError)"
  by (simp add: mark_eval exampleArena_def)

text \<open>
  C7. The claim describes what \<open>markPathElements\<close> is documented to do (it marks the
  given leaves and all of their parents); the code does not do it. On every tree and for
  every list of leaf ids, \<open>markPathElements\<close> throws a TypeError and sets no flag to
  true: on a tree in which every InternalNode has two children the reset walk returns,
  with every flag false and no reference changed, and the call of \<open>this.getLeafNodes\<close>,
  which is \<open>undefined\<close>, throws.
\<close>

theorem markPathElements_throws:
  assumes "treeArena h"
  shows "markPathElements S h (Some 0) = Some (Inl TypeError) \<and>
     (fullArena h \<longrightarrow>
        (\<exists>h1. walkAndApply (\<lambda>n. n\<lparr>selectedPathElement := False\<rparr>) h (Some 0) = Some (Inr h1) \<and>
           links h1 = links h \<and> list_all (\<lambda>c. \<not> selectedPathElement (val c)) h1))"
proof (intro conjI impI)
  show "markPathElements S h (Some 0) = Some (Inl TypeError)"
    by (rule mark_throws[OF assms])
  assume "fullArena h"
  then have "\<not> shortIn h 0" by (rule fullArena_not_short[OF assms])
  then show "\<exists>h1. walkAndApply (\<lambda>n. n\<lparr>selectedPathElement := False\<rparr>) h (Some 0) = Some (Inr h1) \<and>
           links h1 = links h \<and> list_all (\<lambda>c. \<not> selectedPathElement (val c)) h1"
    by (rule reset_walk[OF assms])
qed

text \<open>
  Witness for C7: the arena of the parsed three-record example is a tree in which the
  InternalNode has two children; marking the leaf id 1, or nothing, throws a TypeError
  after the reset walk has returned.
\<close>

theorem markPathElements_throws_witness:
  "treeArena exampleArena \<and> fullArena exampleArena \<and>
   map_sum id (\<lambda>h. (links h, depth (val (h ! 0))))
     (parseStatisticsContent readFields exampleText) = Inr (links exampleArena, 0) \<and>
   markPathElements [1] exampleArena (Some 0) = Some (Inl TypeError) \<and>
   markPathElements [] exampleArena (Some 0) = Some (Inl TypeError) \<and>
   (\<exists>h1. walkAndApply (\<lambda>n. n\<lparr>selectedPathElement := False\<rparr>) exampleArena (Some 0) =
           Some (Inr h1) \<and>
      links h1 = links exampleArena \<and> list_all (\<lambda>c. \<not> selectedPathElement (val c)) h1)"
proof -
  note T = markPathElements_throws[OF exampleArena_tree]
  from T[of "[1]"] have a: "markPathElements [1] exampleArena (Some 0) = Some (Inl TypeError)"
    by blast
  from T[of "[]"] have b: "markPathElements [] exampleArena (Some 0) = Some (Inl TypeError)"
    by blast
  from T[of "[]"] exampleArena_full
  have c: "\<exists>h1. walkAndApply (\<lambda>n. n\<lparr>selectedPathElement := False\<rparr>) exampleArena (Some 0) =
           Some (Inr h1) \<and>
      links h1 = links exampleArena \<and> list_all (\<lambda>c. \<not> selectedPathElement (val c)) h1"
    by blast
  show ?thesis
    by (intro conjI exampleArena_tree exampleArena_full exampleArena_parsed a b c)
qed

subsection \<open>The assumption of two children\<close>




end
